theory Spec2Isabelle
  imports Main
begin

section \<open>Go values\<close>

text \<open>
  A Go string is a sequence of bytes; it is modelled as a \<open>string\<close>, one \<open>char\<close> for each
  byte. The loop \<^verbatim>\<open>for _, ch := range query\<close> does not yield the bytes: it decodes the
  string as UTF-8 and yields code points, and \<^verbatim>\<open>string(ch)\<close> encodes a code point
  again. The two are modelled below (\<open>runes\<close>, \<open>encodeRune\<close>).

  An \<^verbatim>\<open>interface{}\<close> value is \<open>NilValue\<close> or some dynamic value; the zero value that a
  map index returns for a missing key is \<open>NilValue\<close>. A slice returned to the caller is a
  \<open>list option\<close>, \<open>None\<close> being the nil slice. The counters of the code are Go \<^verbatim>\<open>int\<close>s
  that count characters of a string or elements of slices held in memory, so they stay
  below \<open>2^63\<close> and are modelled as \<open>nat\<close>.
\<close>

datatype 'a iface = NilValue | Val 'a

type_synonym 'a params = "string \<rightharpoonup> 'a iface"

text \<open>
  The ways a call of the adapter ends other than with a nil error: the errors it
  builds with \<^verbatim>\<open>fmt.Errorf\<close> (an error of the driver that one of them wraps is kept by
  its message), the sentinel \<^verbatim>\<open>adapter.ErrNotFound\<close>, and the two run-time panics that
  the code can raise on a row object, a failed type assertion to
  \<^verbatim>\<open>map[string]interface{}\<close> and an assignment to an entry of a nil map.
\<close>

datatype error =
    MissingParameter string
  | NotConnected
  | ErrNotFound
  | QueryFailed string
  | ColumnsFailed string
  | ScanFailed string
  | RowsIterationFailed string
  | InsertReturningFailed string
  | BulkInsertFailed string
  | UpdateFailed string
  | DeleteFailed string
  | RowsAffectedFailed string
  | PanicTypeAssertion
  | PanicNilMap

subsection \<open>Formatting helpers of the Go library\<close>

text \<open>\<^verbatim>\<open>%d\<close> of a non-negative \<^verbatim>\<open>int\<close>: its decimal digits, most significant first.\<close>

definition digit :: "nat \<Rightarrow> char" where
  "digit d = ''0123456789'' ! d"

function Itoa :: "nat \<Rightarrow> string" where
  "Itoa n = (if n < 10 then [digit n] else Itoa (n div 10) @ [digit (n mod 10)])"
  by pat_completeness auto
termination
  by (relation "measure id") auto

declare Itoa.simps [simp del]

text \<open>\<^verbatim>\<open>fmt.Sprintf("$%d", n)\<close>\<close>

definition Sprintf_marker :: "nat \<Rightarrow> string" where
  "Sprintf_marker n = CHR ''$'' # Itoa n"

text \<open>\<^verbatim>\<open>strings.Join(elems, sep)\<close>\<close>

fun Join :: "string list \<Rightarrow> string \<Rightarrow> string" where
  "Join [] sep = []"
| "Join [e] sep = e"
| "Join (e # es) sep = e @ sep @ Join es sep"

subsection \<open>UTF-8 in a string\<close>

text \<open>
  A \<^verbatim>\<open>rune\<close> is a code point. Go's \<^verbatim>\<open>rune\<close> is \<^verbatim>\<open>int32\<close>; the values that decoding a
  string yields lie between 0 and 0x10FFFF, so they are modelled as \<open>nat\<close>.
  \<open>RuneError\<close> is U+FFFD, the replacement character.
\<close>

type_synonym rune = nat

definition RuneError :: rune where
  "RuneError = 0xFFFD"

text \<open>
  One step of \<^verbatim>\<open>range\<close> over a string, as the language defines it: the code point
  that the bytes at the front of the string encode, and the number of bytes it takes.
  A byte below 0x80 is its own code point. A lead byte C0..DF, E0..EF or F0..F7
  announces a sequence of two, three or four bytes, the others being continuation
  bytes 80..BF (\<open>cont\<close>); the code point is made of the low bits of the lead byte and
  the low six bits of each continuation byte (\<open>low6\<close>), written here with multiplication
  in place of shifts. The sequence is invalid when a continuation byte is missing, when
  the code point would have fitted in a shorter sequence, when it is a surrogate
  (D800..DFFF) or when it is above 0x10FFFF; so is any other lead byte. At an invalid
  sequence the step yields \<open>RuneError\<close> and takes one byte.
\<close>

definition cont :: "char \<Rightarrow> bool" where
  "cont c \<longleftrightarrow> (0x80::nat) \<le> of_char c \<and> of_char c \<le> (0xBF::nat)"

definition low6 :: "char \<Rightarrow> nat" where
  "low6 c = of_char c - 0x80"

definition decode2 :: "nat \<Rightarrow> string \<Rightarrow> rune \<times> nat" where
  "decode2 b0 s1 =
     (case s1 of
        c1 # s2 \<Rightarrow>
          (let r = (b0 - 0xC0) * 64 + low6 c1 in
           if cont c1 \<and> 0x7F < r then (r, 2) else (RuneError, 1))
      | _ \<Rightarrow> (RuneError, 1))"

definition decode3 :: "nat \<Rightarrow> string \<Rightarrow> rune \<times> nat" where
  "decode3 b0 s1 =
     (case s1 of
        c1 # c2 # s3 \<Rightarrow>
          (let r = (b0 - 0xE0) * 4096 + low6 c1 * 64 + low6 c2 in
           if cont c1 \<and> cont c2 \<and> 0x7FF < r \<and> \<not> (0xD800 \<le> r \<and> r \<le> 0xDFFF)
           then (r, 3) else (RuneError, 1))
      | _ \<Rightarrow> (RuneError, 1))"

definition decode4 :: "nat \<Rightarrow> string \<Rightarrow> rune \<times> nat" where
  "decode4 b0 s1 =
     (case s1 of
        c1 # c2 # c3 # s4 \<Rightarrow>
          (let r = (b0 - 0xF0) * 262144 + low6 c1 * 4096 + low6 c2 * 64 + low6 c3 in
           if cont c1 \<and> cont c2 \<and> cont c3 \<and> 0xFFFF < r \<and> r \<le> 0x10FFFF
           then (r, 4) else (RuneError, 1))
      | _ \<Rightarrow> (RuneError, 1))"

definition decodeRune :: "string \<Rightarrow> rune \<times> nat" where
  "decodeRune s =
     (case s of
        [] \<Rightarrow> (RuneError, 1)
      | c0 # s1 \<Rightarrow>
          (let b0 = of_char c0 in
           if b0 < 0x80 then (b0, 1)
           else if 0xC0 \<le> b0 \<and> b0 < 0xE0 then decode2 b0 s1
           else if 0xE0 \<le> b0 \<and> b0 < 0xF0 then decode3 b0 s1
           else if 0xF0 \<le> b0 \<and> b0 < 0xF8 then decode4 b0 s1
           else (RuneError, 1)))"

text \<open>
  \<^verbatim>\<open>string(ch)\<close> for a rune \<open>ch\<close>: its UTF-8 encoding, of one to four bytes; a surrogate
  or a value above 0x10FFFF is encoded as U+FFFD, the bytes EF BF BD.
\<close>

definition encodeRune :: "rune \<Rightarrow> string" where
  "encodeRune r =
     (if r \<le> 0x7F then [char_of r]
      else if r \<le> 0x7FF then [char_of (0xC0 + r div 64), char_of (0x80 + r mod 64)]
      else if 0x10FFFF < r \<or> (0xD800 \<le> r \<and> r \<le> 0xDFFF) then [CHR 0xEF, CHR 0xBF, CHR 0xBD]
      else if r \<le> 0xFFFF then
        [char_of (0xE0 + r div 4096), char_of (0x80 + r div 64 mod 64), char_of (0x80 + r mod 64)]
      else
        [char_of (0xF0 + r div 262144), char_of (0x80 + r div 4096 mod 64),
         char_of (0x80 + r div 64 mod 64), char_of (0x80 + r mod 64)])"

text \<open>
  The values that \<^verbatim>\<open>for _, ch := range s\<close> runs through, each with the number of bytes
  its step took; \<open>runes\<close> keeps the code points.
\<close>

function range_string :: "string \<Rightarrow> (rune \<times> nat) list" where
  "range_string [] = []"
| "range_string (c # s) =
     decodeRune (c # s) # range_string (drop (snd (decodeRune (c # s))) (c # s))"
  by pat_completeness auto
termination
  by (relation "measure length")
     (auto simp: decodeRune_def decode2_def decode3_def decode4_def Let_def split: list.splits)

definition runes :: "string \<Rightarrow> rune list" where
  "runes s = map fst (range_string s)"

text \<open>
  The string that a loop \<^verbatim>\<open>for _, ch := range s { r += string(ch) }\<close> builds from \<open>s\<close>:
  every byte of \<open>s\<close> that is not part of a valid sequence has become EF BF BD.
\<close>

definition recode :: "string \<Rightarrow> string" where
  "recode s = concat (map encodeRune (runes s))"

text \<open>
  The string is valid UTF-8, as \<^verbatim>\<open>utf8.ValidString\<close> tests it: no step of the decoding
  meets an invalid sequence. (The three bytes EF BF BD are a valid sequence, decoded to
  \<open>RuneError\<close> in a step of three bytes.)
\<close>

definition ValidString :: "string \<Rightarrow> bool" where
  "ValidString s = list_all (\<lambda>rw. rw \<noteq> (RuneError, 1)) (range_string s)"

declare range_string.simps [simp del]

section \<open>The template translator\<close>

subsection \<open>extractArgs\<close>

text \<open>
  The first loop of \<^verbatim>\<open>extractArgs\<close>, over the runes of the query, with its three
  variables \<^verbatim>\<open>inBrace\<close>, \<^verbatim>\<open>paramName\<close> and \<^verbatim>\<open>paramNames\<close> as the state. The rune
  literals \<^verbatim>\<open>'{'\<close> and \<^verbatim>\<open>'}'\<close> are the code points 123 and 125 of the two characters.
\<close>

fun extractArgs_scan :: "rune list \<Rightarrow> bool \<times> string \<times> string list \<Rightarrow> bool \<times> string \<times> string list" where
  "extractArgs_scan [] st = st"
| "extractArgs_scan (ch # query) (inBrace, paramName, paramNames) =
     extractArgs_scan query
       (if ch = of_char CHR ''{'' then (True, [], paramNames)
        else if ch = of_char CHR ''}'' \<and> inBrace then (False, paramName, paramNames @ [paramName])
        else if inBrace then (inBrace, paramName @ encodeRune ch, paramNames)
        else (inBrace, paramName, paramNames))"

text \<open>The names the first loop has collected when it ends.\<close>

definition paramNames :: "string \<Rightarrow> string list" where
  "paramNames query = snd (snd (extractArgs_scan (runes query) (False, [], [])))"

text \<open>
  The second loop: look each name up, in order, and return at the first one that the
  map does not hold, with a nil slice and the error.
\<close>

fun extractArgs_lookup :: "string list \<Rightarrow> 'a params \<Rightarrow> 'a iface list \<Rightarrow> 'a iface list option \<times> error option" where
  "extractArgs_lookup [] params args = (Some args, None)"
| "extractArgs_lookup (name # names) params args =
     (case params name of
        None \<Rightarrow> (None, Some (MissingParameter name))
      | Some val \<Rightarrow> extractArgs_lookup names params (args @ [val]))"

definition extractArgs :: "string \<Rightarrow> 'a params \<Rightarrow> 'a iface list option \<times> error option" where
  "extractArgs query params = extractArgs_lookup (paramNames query) params []"

subsection \<open>replaceNamedParams\<close>

text \<open>
  The loop of \<^verbatim>\<open>replaceNamedParams\<close>, over the runes of the query; the state is
  \<^verbatim>\<open>result\<close>, \<^verbatim>\<open>inBrace\<close>, \<^verbatim>\<open>paramIndex\<close>.
\<close>

fun replaceNamedParams_loop :: "rune list \<Rightarrow> string \<times> bool \<times> nat \<Rightarrow> string \<times> bool \<times> nat" where
  "replaceNamedParams_loop [] st = st"
| "replaceNamedParams_loop (ch # query) (result, inBrace, paramIndex) =
     replaceNamedParams_loop query
       (if ch = of_char CHR ''{'' then (result @ Sprintf_marker paramIndex, True, paramIndex + 1)
        else if ch = of_char CHR ''}'' \<and> inBrace then (result, False, paramIndex)
        else if \<not> inBrace then (result @ encodeRune ch, inBrace, paramIndex)
        else (result, inBrace, paramIndex))"

definition replaceNamedParams :: "string \<Rightarrow> string" where
  "replaceNamedParams query = fst (replaceNamedParams_loop (runes query) ([], False, 1))"

subsection \<open>Templates with well-formed placeholders\<close>

text \<open>
  The shape the specification gives a statement template: literal text \<open>lit\<close>, then
  placeholders \<open>{name}\<close>, each followed by its own literal text. \<open>template\<close> writes such
  a template out as a string; \<open>well_formed\<close> says that no literal holds a \<open>{\<close> and no
  name holds a brace, so that every \<open>{\<close> of the string is closed by a \<open>}\<close> before the
  next \<open>{\<close> and before the end. A \<open>}\<close> may stand in literal text.
  \<open>markers_from k\<close> is the same text with the placeholders replaced by the markers
  \<open>$k\<close>, \<open>$(k+1)\<close>, ... in their order.
\<close>

fun segments :: "(string \<times> string) list \<Rightarrow> string" where
  "segments [] = []"
| "segments ((name, lit) # segs) = CHR ''{'' # name @ CHR ''}'' # lit @ segments segs"

definition template :: "string \<Rightarrow> (string \<times> string) list \<Rightarrow> string" where
  "template lit segs = lit @ segments segs"

fun markers_from :: "nat \<Rightarrow> (string \<times> string) list \<Rightarrow> string" where
  "markers_from k [] = []"
| "markers_from k ((name, lit) # segs) = CHR ''$'' # Itoa k @ lit @ markers_from (Suc k) segs"

definition well_formed :: "string \<Rightarrow> (string \<times> string) list \<Rightarrow> bool" where
  "well_formed lit segs \<longleftrightarrow>
     CHR ''{'' \<notin> set lit \<and>
     (\<forall>(name, lit') \<in> set segs.
        CHR ''{'' \<notin> set name \<and> CHR ''}'' \<notin> set name \<and> CHR ''{'' \<notin> set lit')"

subsection \<open>The completed placeholders of any template\<close>

text \<open>
  The specification's placeholder names, read off the text of a template and not off a
  run of the loop: \<open>Scans the template left-to-right, collecting the literal text
  between each { and the following } as a placeholder name\<close>. \<open>text_before c s\<close> is the
  text of \<open>s\<close> before its first \<open>c\<close>, \<open>text_after c s\<close> the text after its first \<open>c\<close>,
  and \<open>text_after_last c s\<close> the text after its last \<open>c\<close> (all of \<open>s\<close> when it holds no
  \<open>c\<close>). A template has a completed placeholder when it holds a \<open>{\<close> and a \<open>}\<close> comes
  after its first \<open>{\<close>: the first such \<open>}\<close> completes it. Its name is the text between
  the \<open>{\<close> and the \<open>}\<close>, taken from the last \<open>{\<close> that stands before the \<open>}\<close>, since a
  \<open>{\<close> begins a name anew. The other completed placeholders are those of the text
  after that \<open>}\<close>. A \<open>{\<close> that no \<open>}\<close> follows completes nothing.
\<close>

definition text_before :: "char \<Rightarrow> string \<Rightarrow> string" where
  "text_before c s = takeWhile (\<lambda>x. x \<noteq> c) s"

definition text_after :: "char \<Rightarrow> string \<Rightarrow> string" where
  "text_after c s = drop 1 (dropWhile (\<lambda>x. x \<noteq> c) s)"

definition text_after_last :: "char \<Rightarrow> string \<Rightarrow> string" where
  "text_after_last c s = rev (takeWhile (\<lambda>x. x \<noteq> c) (rev s))"

function placeholder_names :: "string \<Rightarrow> string list" where
  "placeholder_names t =
     (if CHR ''{'' \<in> set t \<and> CHR ''}'' \<in> set (text_after CHR ''{'' t)
      then text_after_last CHR ''{'' (text_before CHR ''}'' (text_after CHR ''{'' t))
           # placeholder_names (text_after CHR ''}'' (text_after CHR ''{'' t))
      else [])"
  by pat_completeness auto
termination
proof (relation "measure length")
  show "wf (measure length)" by simp
next
  fix t :: string
  assume "CHR ''{'' \<in> set t \<and> CHR ''}'' \<in> set (text_after CHR ''{'' t)"
  then have a: "CHR ''}'' \<in> set (text_after CHR ''{'' t)" by simp
  have "length (text_after CHR ''}'' (text_after CHR ''{'' t))
        < length (text_after CHR ''{'' t)"
    using a length_dropWhile_le[of "\<lambda>x. x \<noteq> CHR ''}''" "text_after CHR ''{'' t"]
    by (cases "text_after CHR ''{'' t") (auto simp: text_after_def[of "CHR ''}''"])
  moreover have "length (text_after CHR ''{'' t) \<le> length t"
    using length_dropWhile_le[of "\<lambda>x. x \<noteq> CHR ''{''" t] by (simp add: text_after_def)
  ultimately show "(text_after CHR ''}'' (text_after CHR ''{'' t), t) \<in> measure length"
    by simp
qed

declare placeholder_names.simps [simp del]

section \<open>The adapter\<close>

subsection \<open>Operations, row objects and the database\<close>

text \<open>
  Modelled from the spec: the struct types \<^verbatim>\<open>adapter.Operation\<close> and
  \<^verbatim>\<open>adapter.PropertyMap\<close> are declared in the datamapper package, which is not under
  src/. A mapping entry pairs an object-side field name with a data-side column name;
  an operation carries the statement (for an insert, the table name), the flag for
  multi-row semantics, the ordered column mappings and the ordered generated-column
  mappings. These are the fields that \<^verbatim>\<open>adapter.go\<close> reads.
\<close>

record PropertyMap =
  ObjectField :: string
  DataField :: string

record Operation =
  Statement :: string
  Multi :: bool
  Properties :: "PropertyMap list"
  Generated :: "PropertyMap list"

text \<open>
  A Go map is a reference: a row object that the adapter changes is seen changed by
  every holder of the same map. A value of type \<^verbatim>\<open>map[string]interface{}\<close> is therefore
  an address into a heap of maps, or the nil map; an element of \<^verbatim>\<open>[]interface{}\<close> is such
  a map or some other value.
\<close>

datatype mapval = Ref nat | NilMap

datatype 'a object = Map mapval | Other "'a iface"

type_synonym 'a heap = "nat \<Rightarrow> 'a params"

text \<open>
  \<^verbatim>\<open>objInterface.(map[string]interface{})\<close>, with \<open>None\<close> where the assertion fails;
  the entries of a map value, the nil map having none; and the index expression
  \<^verbatim>\<open>obj[key]\<close>.
\<close>

fun the_map :: "'a object \<Rightarrow> mapval option" where
  "the_map (Map m) = Some m"
| "the_map (Other v) = None"

fun load :: "'a heap \<Rightarrow> mapval \<Rightarrow> 'a params" where
  "load h (Ref r) = h r"
| "load h NilMap = Map.empty"

definition index :: "'a params \<Rightarrow> string \<Rightarrow> 'a iface" where
  "index m k = (case m k of None \<Rightarrow> NilValue | Some v \<Rightarrow> v)"

text \<open>The elements of a slice, and \<^verbatim>\<open>append\<close> of one element.\<close>

fun elems :: "'b list option \<Rightarrow> 'b list" where
  "elems None = []"
| "elems (Some xs) = xs"

fun append_slice :: "'b list option \<Rightarrow> 'b \<Rightarrow> 'b list option" where
  "append_slice s x = Some (elems s @ [x])"

text \<open>
  The loops \<^verbatim>\<open>for i, x := range xs { ys[i] = f(i, x) }\<close> over a slice \<open>ys\<close> made
  beforehand with \<^verbatim>\<open>make\<close>.
\<close>

definition fill :: "(nat \<Rightarrow> 'b \<Rightarrow> 'c) \<Rightarrow> 'b list \<Rightarrow> 'c list \<Rightarrow> 'c list" where
  "fill f xs ys = fold (\<lambda>(i, x) ys. ys[i := f i x]) (enumerate 0 xs) ys"

text \<open>
  The database behind \<^verbatim>\<open>*sql.DB\<close>. The adapter reaches it through three calls; the
  record keeps the calls made so far, oldest first, and answers each call by a function
  of all the calls up to and including it, which is as general as a deterministic
  database can be. A result set gives its column names or an error, the rows that
  \<^verbatim>\<open>Next\<close> yields, and the error of the iteration; an execution result gives the number of
  rows affected or an error.
\<close>

datatype 'a call =
    QueryCall string "'a iface list"
  | ExecCall string "'a iface list"
  | QueryRowCall string "'a iface list"

record 'a Rows =
  Columns :: "string + string list"
  Next :: "'a iface list list"
  Err :: "string option"

record Result =
  RowsAffected :: "string + int"

record 'a DB =
  on_query :: "'a call list \<Rightarrow> string + 'a Rows"
  on_exec :: "'a call list \<Rightarrow> string + Result"
  on_query_row :: "'a call list \<Rightarrow> string + 'a iface list"
  calls :: "'a call list"

text \<open>
  The adapter holds the connection, nil until \<^verbatim>\<open>Connect\<close> has succeeded. The pool
  settings and the DSN, which no operation below reads, are left out.
\<close>

record 'a PostgreSQLAdapter =
  db :: "'a DB option"

text \<open>The three calls: each one is recorded and answered.\<close>

definition QueryContext :: "'a DB \<Rightarrow> string \<Rightarrow> 'a iface list \<Rightarrow> 'a DB \<times> (string + 'a Rows)" where
  "QueryContext d query args =
     (let d' = d\<lparr>calls := calls d @ [QueryCall query args]\<rparr> in (d', on_query d (calls d')))"

definition ExecContext :: "'a DB \<Rightarrow> string \<Rightarrow> 'a iface list \<Rightarrow> 'a DB \<times> (string + Result)" where
  "ExecContext d query args =
     (let d' = d\<lparr>calls := calls d @ [ExecCall query args]\<rparr> in (d', on_exec d (calls d')))"

definition QueryRowContext :: "'a DB \<Rightarrow> string \<Rightarrow> 'a iface list \<Rightarrow> 'a DB \<times> (string + 'a iface list)" where
  "QueryRowContext d query args =
     (let d' = d\<lparr>calls := calls d @ [QueryRowCall query args]\<rparr> in (d', on_query_row d (calls d')))"

text \<open>
  \<^verbatim>\<open>Scan\<close> into \<open>n\<close> destinations of type \<^verbatim>\<open>*interface{}\<close> fails when the row does not
  have \<open>n\<close> values, and stores the values otherwise.
\<close>

definition Scan :: "'a iface list \<Rightarrow> nat \<Rightarrow> string + 'a iface list" where
  "Scan row n =
     (if length row \<noteq> n
      then Inl (''sql: expected '' @ Itoa (length row) @ '' destination arguments in Scan, not '' @ Itoa n)
      else Inr row)"

subsection \<open>Fetch\<close>

text \<open>
  The map built for one row, the loop over the rows, which returns at the first scan
  that fails, and \<^verbatim>\<open>Fetch\<close>. The results are returned with the error and with the
  adapter, whose connection has recorded the query.
\<close>

definition result_map :: "string list \<Rightarrow> 'a iface list \<Rightarrow> 'a params" where
  "result_map columns values =
     fold (\<lambda>(i, col) result. result(col \<mapsto> values ! i)) (enumerate 0 columns) Map.empty"

fun Fetch_rows :: "string list \<Rightarrow> 'a iface list list \<Rightarrow> 'a params list option
    \<Rightarrow> error + 'a params list option" where
  "Fetch_rows columns [] results = Inr results"
| "Fetch_rows columns (row # rows) results =
     (case Scan row (length columns) of
        Inl e \<Rightarrow> Inl (ScanFailed e)
      | Inr values \<Rightarrow> Fetch_rows columns rows (append_slice results (result_map columns values)))"

definition Fetch :: "'a PostgreSQLAdapter \<Rightarrow> Operation \<Rightarrow> 'a params
    \<Rightarrow> ('a params list option \<times> error option) \<times> 'a PostgreSQLAdapter" where
  "Fetch a op params =
     (case db a of
        None \<Rightarrow> ((None, Some NotConnected), a)
      | Some d \<Rightarrow>
          (case extractArgs (Statement op) params of
             (args, Some err) \<Rightarrow> ((None, Some err), a)
           | (args, None) \<Rightarrow>
               (let query = replaceNamedParams (Statement op);
                    (d', r) = QueryContext d query (elems args);
                    a' = a\<lparr>db := Some d'\<rparr>
                in case r of
                     Inl e \<Rightarrow> ((None, Some (QueryFailed e)), a')
                   | Inr rows \<Rightarrow>
                       (case Columns rows of
                          Inl e \<Rightarrow> ((None, Some (ColumnsFailed e)), a')
                        | Inr columns \<Rightarrow>
                            (case Fetch_rows columns (Next rows) None of
                               Inl err \<Rightarrow> ((None, Some err), a')
                             | Inr results \<Rightarrow>
                                 (case Err rows of
                                    Some e \<Rightarrow> ((None, Some (RowsIterationFailed e)), a')
                                  | None \<Rightarrow>
                                      if length (elems results) = 0 \<and> \<not> Multi op
                                      then ((None, Some ErrNotFound), a')
                                      else ((results, None), a')))))))"

subsection \<open>Insert\<close>

text \<open>
  \<^verbatim>\<open>insertWithReturning\<close> and \<^verbatim>\<open>insertBulk\<close> are called by \<^verbatim>\<open>Insert\<close> alone, after its
  check that the connection is not nil; they are modelled on the connection. The first
  loop below writes the scanned values back into the row object; then come the loop
  over the row objects and the function itself, which computes the column lists once.
\<close>

fun writeBack :: "mapval \<Rightarrow> (nat \<times> PropertyMap) list \<Rightarrow> 'a iface list \<Rightarrow> 'a heap \<Rightarrow> 'a heap option" where
  "writeBack obj [] scanDest h = Some h"
| "writeBack obj ((i, gen) # gens) scanDest h =
     (case obj of
        NilMap \<Rightarrow> None
      | Ref r \<Rightarrow> writeBack obj gens scanDest (h(r := (h r)(ObjectField gen \<mapsto> scanDest ! i))))"

fun insertWithReturning_rows :: "Operation \<Rightarrow> string \<Rightarrow> string list \<Rightarrow> string list
    \<Rightarrow> 'a object list \<Rightarrow> 'a heap \<Rightarrow> 'a DB \<Rightarrow> error option \<times> 'a heap \<times> 'a DB" where
  "insertWithReturning_rows op tableName columns returningCols [] h d = (None, h, d)"
| "insertWithReturning_rows op tableName columns returningCols (objInterface # objects) h d =
     (case the_map objInterface of
        None \<Rightarrow> (Some PanicTypeAssertion, h, d)
      | Some obj \<Rightarrow>
          (let placeholders = fill (\<lambda>i prop. Sprintf_marker (i + 1)) (Properties op)
                                (replicate (length columns) []);
               values = fill (\<lambda>i prop. index (load h obj) (ObjectField prop)) (Properties op)
                          (replicate (length columns) NilValue);
               query = ''INSERT INTO '' @ tableName @ '' ('' @ Join columns '', '' @ '') VALUES (''
                         @ Join placeholders '', '' @ '') RETURNING '' @ Join returningCols '', '';
               (d', r) = QueryRowContext d query values
           in case (case r of Inl e \<Rightarrow> Inl e | Inr row \<Rightarrow> Scan row (length (Generated op))) of
                Inl e \<Rightarrow> (Some (InsertReturningFailed e), h, d')
              | Inr scanDest \<Rightarrow>
                  (case writeBack obj (enumerate 0 (Generated op)) scanDest h of
                     None \<Rightarrow> (Some PanicNilMap, h, d')
                   | Some h' \<Rightarrow>
                       insertWithReturning_rows op tableName columns returningCols objects h' d')))"

definition insertWithReturning :: "'a DB \<Rightarrow> Operation \<Rightarrow> 'a object list \<Rightarrow> 'a heap
    \<Rightarrow> error option \<times> 'a heap \<times> 'a DB" where
  "insertWithReturning d op objects h =
     (let tableName = Statement op;
          columns = fill (\<lambda>i prop. DataField prop) (Properties op)
                      (replicate (length (Properties op)) []);
          returningCols = fill (\<lambda>i gen. DataField gen) (Generated op)
                            (replicate (length (Generated op)) [])
      in insertWithReturning_rows op tableName columns returningCols objects h d)"

text \<open>
  \<^verbatim>\<open>insertBulk\<close>: the inner loop over the column mappings, with \<^verbatim>\<open>placeholders\<close>,
  \<^verbatim>\<open>paramIndex\<close> and \<^verbatim>\<open>allValues\<close> as its state; the outer loop over the row objects; and
  the function.
\<close>

definition insertBulk_row :: "'a params \<Rightarrow> PropertyMap list \<Rightarrow> nat \<Rightarrow> nat \<Rightarrow> 'a iface list
    \<Rightarrow> string list \<times> nat \<times> 'a iface list" where
  "insertBulk_row obj props ncolumns paramIndex allValues =
     fold (\<lambda>(j, prop) (placeholders, paramIndex, allValues).
             (placeholders[j := Sprintf_marker paramIndex], paramIndex + 1,
              allValues @ [index obj (ObjectField prop)]))
       (enumerate 0 props) (replicate ncolumns [], paramIndex, allValues)"

fun insertBulk_rows :: "'a heap \<Rightarrow> PropertyMap list \<Rightarrow> nat \<Rightarrow> (nat \<times> 'a object) list
    \<Rightarrow> string list \<times> 'a iface list \<times> nat \<Rightarrow> error + string list \<times> 'a iface list \<times> nat" where
  "insertBulk_rows h props ncolumns [] st = Inr st"
| "insertBulk_rows h props ncolumns ((i, objInterface) # objects) (valueRows, allValues, paramIndex) =
     (case the_map objInterface of
        None \<Rightarrow> Inl PanicTypeAssertion
      | Some obj \<Rightarrow>
          (case insertBulk_row (load h obj) props ncolumns paramIndex allValues of
             (placeholders, paramIndex', allValues') \<Rightarrow>
               insertBulk_rows h props ncolumns objects
                 (valueRows[i := ''('' @ Join placeholders '', '' @ '')''], allValues', paramIndex')))"

definition insertBulk :: "'a DB \<Rightarrow> Operation \<Rightarrow> 'a object list \<Rightarrow> 'a heap
    \<Rightarrow> error option \<times> 'a DB" where
  "insertBulk d op objects h =
     (let tableName = Statement op;
          columns = fill (\<lambda>i prop. DataField prop) (Properties op)
                      (replicate (length (Properties op)) [])
      in case insertBulk_rows h (Properties op) (length columns) (enumerate 0 objects)
                (replicate (length objects) [], [], 1) of
           Inl err \<Rightarrow> (Some err, d)
         | Inr (valueRows, allValues, paramIndex) \<Rightarrow>
             (let query = ''INSERT INTO '' @ tableName @ '' ('' @ Join columns '', ''
                            @ '') VALUES '' @ Join valueRows '', '';
                  (d', r) = ExecContext d query allValues
              in case r of
                   Inl e \<Rightarrow> (Some (BulkInsertFailed e), d')
                 | Inr result \<Rightarrow> (None, d')))"

text \<open>\<^verbatim>\<open>Insert\<close> returns the error, the heap and the adapter.\<close>

definition Insert :: "'a PostgreSQLAdapter \<Rightarrow> Operation \<Rightarrow> 'a object list \<Rightarrow> 'a heap
    \<Rightarrow> error option \<times> 'a heap \<times> 'a PostgreSQLAdapter" where
  "Insert a op objects h =
     (case db a of
        None \<Rightarrow> (Some NotConnected, h, a)
      | Some d \<Rightarrow>
          if length objects = 0 then (None, h, a)
          else if length (Generated op) > 0 then
            (case insertWithReturning d op objects h of
               (err, h', d') \<Rightarrow> (err, h', a\<lparr>db := Some d'\<rparr>))
          else
            (case insertBulk d op objects h of
               (err, d') \<Rightarrow> (err, h, a\<lparr>db := Some d'\<rparr>)))"

subsection \<open>Update and Delete\<close>

fun Update_loop :: "string \<Rightarrow> 'a heap \<Rightarrow> 'a object list \<Rightarrow> 'a DB \<Rightarrow> error option \<times> 'a DB" where
  "Update_loop query h [] d = (None, d)"
| "Update_loop query h (objInterface # objects) d =
     (case the_map objInterface of
        None \<Rightarrow> (Some PanicTypeAssertion, d)
      | Some obj \<Rightarrow>
          (case extractArgs query (load h obj) of
             (args, Some err) \<Rightarrow> (Some err, d)
           | (args, None) \<Rightarrow>
               (let pgQuery = replaceNamedParams query;
                    (d', r) = ExecContext d pgQuery (elems args)
                in case r of
                     Inl e \<Rightarrow> (Some (UpdateFailed e), d')
                   | Inr result \<Rightarrow>
                       (case RowsAffected result of
                          Inl e \<Rightarrow> (Some (RowsAffectedFailed e), d')
                        | Inr rowsAffected \<Rightarrow>
                            if rowsAffected = 0 then (Some ErrNotFound, d')
                            else Update_loop query h objects d'))))"

definition Update :: "'a PostgreSQLAdapter \<Rightarrow> Operation \<Rightarrow> 'a object list \<Rightarrow> 'a heap
    \<Rightarrow> error option \<times> 'a PostgreSQLAdapter" where
  "Update a op objects h =
     (case db a of
        None \<Rightarrow> (Some NotConnected, a)
      | Some d \<Rightarrow>
          (case Update_loop (Statement op) h objects d of
             (err, d') \<Rightarrow> (err, a\<lparr>db := Some d'\<rparr>)))"

text \<open>
  \<^verbatim>\<open>Delete\<close> takes an identifier that is a map as the parameter map, and any other
  identifier as the value of the parameter \<open>id\<close>.
\<close>

fun Delete_params :: "'a heap \<Rightarrow> 'a object \<Rightarrow> 'a params" where
  "Delete_params h (Map idMap) = load h idMap"
| "Delete_params h (Other id') = [''id'' \<mapsto> id']"

fun Delete_loop :: "string \<Rightarrow> 'a heap \<Rightarrow> 'a object list \<Rightarrow> 'a DB \<Rightarrow> error option \<times> 'a DB" where
  "Delete_loop query h [] d = (None, d)"
| "Delete_loop query h (id' # identifiers) d =
     (let params = Delete_params h id'
      in case extractArgs query params of
           (args, Some err) \<Rightarrow> (Some err, d)
         | (args, None) \<Rightarrow>
             (let pgQuery = replaceNamedParams query;
                  (d', r) = ExecContext d pgQuery (elems args)
              in case r of
                   Inl e \<Rightarrow> (Some (DeleteFailed e), d')
                 | Inr result \<Rightarrow>
                     (case RowsAffected result of
                        Inl e \<Rightarrow> (Some (RowsAffectedFailed e), d')
                      | Inr rowsAffected \<Rightarrow>
                          if rowsAffected = 0 then (Some ErrNotFound, d')
                          else Delete_loop query h identifiers d')))"

definition Delete :: "'a PostgreSQLAdapter \<Rightarrow> Operation \<Rightarrow> 'a object list \<Rightarrow> 'a heap
    \<Rightarrow> error option \<times> 'a PostgreSQLAdapter" where
  "Delete a op identifiers h =
     (case db a of
        None \<Rightarrow> (Some NotConnected, a)
      | Some d \<Rightarrow>
          (case Delete_loop (Statement op) h identifiers d of
             (err, d') \<Rightarrow> (err, a\<lparr>db := Some d'\<rparr>)))"

subsection \<open>The statements and arguments the specification describes\<close>

text \<open>
  The specification's own description of what the statement builder produces, to be
  compared with what the code builds. \<open>value_tuple first n\<close> is a tuple of \<open>n\<close>
  placeholders numbered from \<open>first\<close>. The bulk statement for \<open>nrows\<close> rows of \<open>n\<close> columns
  has the tuples \<open>value_tuple (i * n + 1) n\<close> for the rows \<open>i = 0, 1, ...\<close>, so that the
  numbering runs on from row to row; the statement with a \<^verbatim>\<open>RETURNING\<close> clause has the one
  tuple \<open>value_tuple 1 n\<close>.
\<close>

definition value_tuple :: "nat \<Rightarrow> nat \<Rightarrow> string" where
  "value_tuple first n = ''('' @ Join (map Sprintf_marker [first..<first + n]) '', '' @ '')''"

definition bulk_statement :: "Operation \<Rightarrow> nat \<Rightarrow> string" where
  "bulk_statement op nrows =
     ''INSERT INTO '' @ Statement op @ '' ('' @ Join (map DataField (Properties op)) '', ''
       @ '') VALUES ''
       @ Join (map (\<lambda>i. value_tuple (i * length (Properties op) + 1) (length (Properties op)))
                 [0..<nrows]) '', ''"


text \<open>
  The values of a row object in the order of the column mappings, and a row object
  after the values \<open>vals\<close> have been written to the object-side fields of the generated
  mappings, the i-th value to the i-th field, a later mapping winning over an earlier one
  of the same field.
\<close>

definition row_values :: "'a heap \<Rightarrow> PropertyMap list \<Rightarrow> 'a object \<Rightarrow> 'a iface list" where
  "row_values h props objInterface =
     (case the_map objInterface of
        None \<Rightarrow> []
      | Some obj \<Rightarrow> map (\<lambda>prop. index (load h obj) (ObjectField prop)) props)"


text \<open>
  The statement of an update or a delete, executed on the connection \<open>d\<close> with the
  parameter map \<open>params\<close>, reports zero rows affected: the parameters are all there, the
  execution succeeds, and \<^verbatim>\<open>RowsAffected\<close> returns 0 and no error.
\<close>

definition zero_rows :: "'a DB \<Rightarrow> string \<Rightarrow> 'a params \<Rightarrow> bool" where
  "zero_rows d query params =
     (case extractArgs query params of
        (args, Some err) \<Rightarrow> False
      | (args, None) \<Rightarrow>
          (case on_exec d (calls d @ [ExecCall (replaceNamedParams query) (elems args)]) of
             Inl e \<Rightarrow> False
           | Inr result \<Rightarrow> RowsAffected result = Inr 0))"

subsection \<open>Example data\<close>

text \<open>
  A table of users with two columns, two row objects on the heap, and a database that
  answers every query with an empty result set, every execution with zero rows
  affected, and every insert with a \<^verbatim>\<open>RETURNING\<close> clause with the number of calls made so
  far as the generated value.
\<close>

definition example_op :: Operation where
  "example_op = \<lparr>Statement = ''users'', Multi = False,
     Properties = [\<lparr>ObjectField = ''Name'', DataField = ''name''\<rparr>,
                   \<lparr>ObjectField = ''Email'', DataField = ''email''\<rparr>],
     Generated = []\<rparr>"

definition example_returning_op :: Operation where
  "example_returning_op = example_op\<lparr>Generated := [\<lparr>ObjectField = ''ID'', DataField = ''id''\<rparr>]\<rparr>"

definition example_heap :: "string heap" where
  "example_heap = (\<lambda>r. Map.empty)
     (0 := map_of [(''Name'', Val ''Alice''), (''Email'', Val ''alice@example.com'')],
      1 := map_of [(''Name'', Val ''Bob''), (''Email'', Val ''bob@example.com'')])"

definition example_db :: "string DB" where
  "example_db = \<lparr>on_query = (\<lambda>cs. Inr \<lparr>Columns = Inr [''id''], Next = [], Err = None\<rparr>),
      on_exec = (\<lambda>cs. Inr \<lparr>RowsAffected = Inr 0\<rparr>),
      on_query_row = (\<lambda>cs. Inr [Val (Itoa (length cs))]),
      calls = []\<rparr>"

section \<open>Properties of the decoding\<close>

subsection \<open>One step\<close>

lemma decode2_width: "1 \<le> snd (decode2 b0 s1) \<and> snd (decode2 b0 s1) \<le> Suc (length s1)"
  by (auto simp: decode2_def Let_def split: list.splits)

lemma decode3_width: "1 \<le> snd (decode3 b0 s1) \<and> snd (decode3 b0 s1) \<le> Suc (length s1)"
  by (auto simp: decode3_def Let_def split: list.splits)

lemma decode4_width: "1 \<le> snd (decode4 b0 s1) \<and> snd (decode4 b0 s1) \<le> Suc (length s1)"
  by (auto simp: decode4_def Let_def split: list.splits)

lemma decodeRune_width:
  "s \<noteq> [] \<Longrightarrow> 1 \<le> snd (decodeRune s) \<and> snd (decodeRune s) \<le> length s"
  using decode2_width decode3_width decode4_width
  by (cases s) (simp_all add: decodeRune_def Let_def)

lemma decodeRune_ascii: "of_char c < (0x80::nat) \<Longrightarrow> decodeRune (c # s) = (of_char c, 1)"
  by (simp add: decodeRune_def)

lemma not_cont_ascii: "of_char c < (0x80::nat) \<Longrightarrow> \<not> cont c"
  by (simp add: cont_def)

lemma decode2_append:
  "of_char c < (0x80::nat) \<Longrightarrow> decode2 b0 (s1 @ c # ys) = decode2 b0 s1"
  by (cases s1) (simp_all add: decode2_def not_cont_ascii)

lemma decode3_append:
  assumes "of_char c < (0x80::nat)"
  shows "decode3 b0 (s1 @ c # ys) = decode3 b0 s1"
proof (cases s1)
  case Nil
  then show ?thesis using assms
    by (simp add: decode3_def not_cont_ascii split: list.splits)
next
  case (Cons c1 s2)
  then show ?thesis using assms
    by (cases s2) (simp_all add: decode3_def not_cont_ascii)
qed

lemma decode4_append:
  assumes "of_char c < (0x80::nat)"
  shows "decode4 b0 (s1 @ c # ys) = decode4 b0 s1"
proof (cases s1)
  case Nil
  then show ?thesis using assms
    by (simp add: decode4_def not_cont_ascii split: list.splits)
next
  case s1: (Cons c1 s2)
  show ?thesis
  proof (cases s2)
    case Nil
    then show ?thesis using assms s1
      by (simp add: decode4_def not_cont_ascii split: list.splits)
  next
    case s2: (Cons c2 s3)
    show ?thesis using assms s1 s2
      by (cases s3) (simp_all add: decode4_def not_cont_ascii)
  qed
qed

lemma decodeRune_ascii_append:
  "s \<noteq> [] \<Longrightarrow> of_char c < (0x80::nat) \<Longrightarrow> decodeRune (s @ c # ys) = decodeRune s"
  by (cases s) (simp_all add: decodeRune_def Let_def decode2_append decode3_append decode4_append)

lemma range_string_split:
  assumes "of_char c < (0x80::nat)"
  shows "range_string (xs @ c # ys) = range_string xs @ (of_char c, 1) # range_string ys"
proof (induction xs rule: range_string.induct)
  case 1
  show ?case using assms by (simp add: range_string.simps decodeRune_ascii)
next
  case (2 b s)
  let ?w = "snd (decodeRune (b # s))"
  have w: "?w - length (b # s) = 0" using decodeRune_width[of "b # s"] by simp
  have d: "decodeRune ((b # s) @ c # ys) = decodeRune (b # s)"
    using assms by (intro decodeRune_ascii_append) simp_all
  have "range_string ((b # s) @ c # ys)
        = decodeRune ((b # s) @ c # ys)
          # range_string (drop (snd (decodeRune ((b # s) @ c # ys))) ((b # s) @ c # ys))"
    using range_string.simps(2)[of b "s @ c # ys"] by simp
  also have "\<dots> = decodeRune (b # s) # range_string (drop ?w (b # s) @ c # ys)"
    unfolding d drop_append w by simp
  also have "\<dots> = decodeRune (b # s) # range_string (drop ?w (b # s))
                     @ (of_char c, 1) # range_string ys"
    using 2 by simp
  finally show ?case by (simp add: range_string.simps(2)[of b s])
qed

lemma runes_split:
  "of_char c < (0x80::nat) \<Longrightarrow> runes (xs @ c # ys) = runes xs @ of_char c # runes ys"
  by (simp add: runes_def range_string_split)

lemma runes_Nil: "runes [] = []"
  by (simp add: runes_def range_string.simps)

lemma ValidString_split:
  "of_char c < (0x80::nat) \<Longrightarrow>
   ValidString (xs @ c # ys) \<longleftrightarrow> ValidString xs \<and> ValidString ys"
  by (auto simp: ValidString_def range_string_split RuneError_def)

lemma char_eq_char_of: "a < (0x80::nat) \<Longrightarrow> (x = char_of a) = (of_char x = a)"
  by (auto simp: char_of_eq_iff take_bit_eq_mod)

lemma cont_not_ascii: "cont x \<Longrightarrow> a < (0x80::nat) \<Longrightarrow> x \<noteq> char_of a"
  by (auto simp: char_eq_char_of cont_def)

lemma decode2_cases:
  "decode2 b0 s1 = (RuneError, 1)
   \<or> (\<exists>c1 s2. s1 = c1 # s2 \<and> cont c1 \<and> 0x7F < (b0 - 0xC0) * 64 + low6 c1
        \<and> decode2 b0 s1 = ((b0 - 0xC0) * 64 + low6 c1, 2))"
  by (cases s1) (simp_all add: decode2_def Let_def)

lemma decode3_cases:
  "decode3 b0 s1 = (RuneError, 1)
   \<or> (\<exists>c1 c2 s3. s1 = c1 # c2 # s3 \<and> cont c1 \<and> cont c2
        \<and> 0x7FF < (b0 - 0xE0) * 4096 + low6 c1 * 64 + low6 c2
        \<and> \<not> (0xD800 \<le> (b0 - 0xE0) * 4096 + low6 c1 * 64 + low6 c2
              \<and> (b0 - 0xE0) * 4096 + low6 c1 * 64 + low6 c2 \<le> 0xDFFF)
        \<and> decode3 b0 s1 = ((b0 - 0xE0) * 4096 + low6 c1 * 64 + low6 c2, 3))"
proof (cases s1)
  case Nil
  then show ?thesis by (simp add: decode3_def)
next
  case (Cons c1 s2)
  then show ?thesis by (cases s2) (simp_all add: decode3_def Let_def)
qed

lemma decode4_cases:
  "decode4 b0 s1 = (RuneError, 1)
   \<or> (\<exists>c1 c2 c3 s4. s1 = c1 # c2 # c3 # s4 \<and> cont c1 \<and> cont c2 \<and> cont c3
        \<and> 0xFFFF < (b0 - 0xF0) * 262144 + low6 c1 * 4096 + low6 c2 * 64 + low6 c3
        \<and> (b0 - 0xF0) * 262144 + low6 c1 * 4096 + low6 c2 * 64 + low6 c3 \<le> 0x10FFFF
        \<and> decode4 b0 s1
            = ((b0 - 0xF0) * 262144 + low6 c1 * 4096 + low6 c2 * 64 + low6 c3, 4))"
proof (cases s1)
  case Nil
  then show ?thesis by (simp add: decode4_def)
next
  case s1: (Cons c1 s2)
  show ?thesis
  proof (cases s2)
    case Nil
    then show ?thesis using s1 by (simp add: decode4_def)
  next
    case s2: (Cons c2 s3)
    show ?thesis using s1 s2 by (cases s3) (simp_all add: decode4_def Let_def)
  qed
qed

text \<open>One step of the range loop, by cases.\<close>

lemma decodeRune_cases:
  "(of_char c0 < (0x80::nat) \<and> decodeRune (c0 # s1) = (of_char c0, 1))
   \<or> ((0x80::nat) \<le> of_char c0 \<and> decodeRune (c0 # s1) = (RuneError, 1))
   \<or> (\<exists>c1 s2. s1 = c1 # s2 \<and> (0xC0::nat) \<le> of_char c0 \<and> of_char c0 < (0xE0::nat) \<and> cont c1
        \<and> 0x7F < (of_char c0 - 0xC0) * 64 + low6 c1
        \<and> decodeRune (c0 # s1) = ((of_char c0 - 0xC0) * 64 + low6 c1, 2))
   \<or> (\<exists>c1 c2 s3. s1 = c1 # c2 # s3 \<and> (0xE0::nat) \<le> of_char c0 \<and> of_char c0 < (0xF0::nat)
        \<and> cont c1 \<and> cont c2
        \<and> 0x7FF < (of_char c0 - 0xE0) * 4096 + low6 c1 * 64 + low6 c2
        \<and> \<not> (0xD800 \<le> (of_char c0 - 0xE0) * 4096 + low6 c1 * 64 + low6 c2
              \<and> (of_char c0 - 0xE0) * 4096 + low6 c1 * 64 + low6 c2 \<le> 0xDFFF)
        \<and> decodeRune (c0 # s1) = ((of_char c0 - 0xE0) * 4096 + low6 c1 * 64 + low6 c2, 3))
   \<or> (\<exists>c1 c2 c3 s4. s1 = c1 # c2 # c3 # s4 \<and> (0xF0::nat) \<le> of_char c0
        \<and> of_char c0 < (0xF8::nat) \<and> cont c1 \<and> cont c2 \<and> cont c3
        \<and> 0xFFFF < (of_char c0 - 0xF0) * 262144 + low6 c1 * 4096 + low6 c2 * 64 + low6 c3
        \<and> (of_char c0 - 0xF0) * 262144 + low6 c1 * 4096 + low6 c2 * 64 + low6 c3 \<le> 0x10FFFF
        \<and> decodeRune (c0 # s1)
            = ((of_char c0 - 0xF0) * 262144 + low6 c1 * 4096 + low6 c2 * 64 + low6 c3, 4))"
  using decode2_cases[of "of_char c0" s1] decode3_cases[of "of_char c0" s1]
    decode4_cases[of "of_char c0" s1]
  by (auto simp: decodeRune_def Let_def)

lemma range_string_Cons:
  "range_string (c # s) = decodeRune (c # s) # range_string (drop (snd (decodeRune (c # s))) (c # s))"
  by (rule range_string.simps(2))

lemma runes_Cons:
  "runes (c # s) = fst (decodeRune (c # s)) # runes (drop (snd (decodeRune (c # s))) (c # s))"
  by (simp add: runes_def range_string_Cons)

lemma decodeRune_consumed:
  "(of_char c0 < (0x80::nat) \<and> decodeRune (c0 # s1) = (of_char c0, 1))
   \<or> ((0x80::nat) \<le> of_char c0 \<and> 0x80 \<le> fst (decodeRune (c0 # s1))
       \<and> (\<forall>x \<in> set (take (snd (decodeRune (c0 # s1))) (c0 # s1)). (0x80::nat) \<le> of_char x))"
  using decodeRune_cases[of c0 s1]
proof (elim disjE exE conjE)
  assume "of_char c0 < (0x80::nat)" "decodeRune (c0 # s1) = (of_char c0, 1)"
  then show ?thesis by simp
next
  assume "(0x80::nat) \<le> of_char c0" "decodeRune (c0 # s1) = (RuneError, 1)"
  then show ?thesis by (simp add: RuneError_def)
next
  fix c1 s2
  assume "s1 = c1 # s2" "(0xC0::nat) \<le> of_char c0" "cont c1"
    "0x7F < (of_char c0 - 0xC0) * 64 + low6 c1"
    "decodeRune (c0 # s1) = ((of_char c0 - 0xC0) * 64 + low6 c1, 2)"
  then show ?thesis by (simp add: cont_def)
next
  fix c1 c2 s3
  assume "s1 = c1 # c2 # s3" "(0xE0::nat) \<le> of_char c0" "cont c1" "cont c2"
    "0x7FF < (of_char c0 - 0xE0) * 4096 + low6 c1 * 64 + low6 c2"
    "decodeRune (c0 # s1) = ((of_char c0 - 0xE0) * 4096 + low6 c1 * 64 + low6 c2, 3)"
  then show ?thesis by (simp add: cont_def)
next
  fix c1 c2 c3 s4
  assume "s1 = c1 # c2 # c3 # s4" "(0xF0::nat) \<le> of_char c0" "cont c1" "cont c2" "cont c3"
    "0xFFFF < (of_char c0 - 0xF0) * 262144 + low6 c1 * 4096 + low6 c2 * 64 + low6 c3"
    "decodeRune (c0 # s1)
       = ((of_char c0 - 0xF0) * 262144 + low6 c1 * 4096 + low6 c2 * 64 + low6 c3, 4)"
  then show ?thesis by (simp add: cont_def)
qed

lemma count_list_take_drop:
  "count_list xs x = count_list (take n xs) x + count_list (drop n xs) x"
  using count_list_append[of "take n xs" "drop n xs" x] by simp

lemma count_runes_ascii:
  assumes "of_char a < (0x80::nat)"
  shows "count_list (runes s) (of_char a) = count_list s a"
proof (induction s rule: range_string.induct)
  case 1
  show ?case by (simp add: runes_def range_string.simps)
next
  case (2 c s)
  let ?d = "decodeRune (c # s)"
  have IH: "count_list (runes (drop (snd ?d) (c # s))) (of_char a)
            = count_list (drop (snd ?d) (c # s)) a"
    using 2 by simp
  have split: "count_list (c # s) a
               = count_list (take (snd ?d) (c # s)) a + count_list (drop (snd ?d) (c # s)) a"
    by (rule count_list_take_drop)
  from decodeRune_consumed[of c s] show ?case
  proof (elim disjE conjE)
    assume d: "?d = (of_char c, 1)"
    show ?thesis
      unfolding runes_Cons split using IH by (simp add: d)
  next
    assume hi: "(0x80::nat) \<le> fst ?d"
      and bytes: "\<forall>x \<in> set (take (snd ?d) (c # s)). (0x80::nat) \<le> of_char x"
    have "a \<notin> set (take (snd ?d) (c # s))"
      using bytes assms by auto
    then have "count_list (take (snd ?d) (c # s)) a = 0"
      by (simp add: count_list_0_iff)
    moreover have "fst ?d \<noteq> of_char a"
      using hi assms by simp
    ultimately show ?thesis
      unfolding runes_Cons split using IH by simp
  qed
qed

lemma count_runes_open: "count_list (runes s) 123 = count_list s CHR ''{''"
  using count_runes_ascii[of "CHR ''{''" s] by simp

lemma open_in_runes: "123 \<in> set (runes s) \<longleftrightarrow> CHR ''{'' \<in> set s"
  using count_runes_ascii[of "CHR ''{''" s] count_list_0_iff[of "runes s" 123]
    count_list_0_iff[of s "CHR ''{''"] by simp

lemma close_in_runes: "125 \<in> set (runes s) \<longleftrightarrow> CHR ''}'' \<in> set s"
  using count_runes_ascii[of "CHR ''}''" s] count_list_0_iff[of "runes s" 125]
    count_list_0_iff[of s "CHR ''}''"] by simp

lemma mod64: "l < 64 \<Longrightarrow> (a * 64 + l) mod 64 = (l::nat)"
  by simp

lemma div64: "l < 64 \<Longrightarrow> (a * 64 + l) div 64 = (a::nat)"
  by simp

lemma div4096: "l < 4096 \<Longrightarrow> (a * 4096 + l) div 4096 = (a::nat)"
  by simp

lemma div262144: "l < 262144 \<Longrightarrow> (a * 262144 + l) div 262144 = (a::nat)"
  by simp

lemma encode2:
  assumes "h < 32" "l < 64" "0x7F < h * 64 + l"
  shows "encodeRune (h * 64 + l) = [char_of (0xC0 + h), char_of (0x80 + l)]"
  using assms by (simp add: encodeRune_def)

lemma encode3:
  assumes "h < 16" "m < 64" "l < 64" "0x7FF < h * 4096 + m * 64 + l"
    "\<not> (0xD800 \<le> h * 4096 + m * 64 + l \<and> h * 4096 + m * 64 + l \<le> 0xDFFF)"
  shows "encodeRune (h * 4096 + m * 64 + l)
         = [char_of (0xE0 + h), char_of (0x80 + m), char_of (0x80 + l)]"
proof -
  let ?r = "h * 4096 + m * 64 + l"
  have r: "?r = (h * 64 + m) * 64 + l" by simp
  have a: "?r mod 64 = l" unfolding r using assms(3) by (rule mod64)
  have b: "?r div 64 = h * 64 + m" unfolding r using assms(3) by (rule div64)
  have c: "?r div 64 mod 64 = m" unfolding b using assms(2) by (rule mod64)
  have r2: "?r = h * 4096 + (m * 64 + l)" by simp
  have "m * 64 + l < 4096" using assms(2,3) by simp
  then have d: "?r div 4096 = h" unfolding r2 by (rule div4096)
  have e: "?r \<le> 0xFFFF" using assms(1,2,3) by simp
  have f: "\<not> ?r \<le> 0x7F" "\<not> ?r \<le> 0x7FF" "\<not> 0x10FFFF < ?r" using assms(4) e by simp_all
  show ?thesis
    unfolding encodeRune_def a c d using assms(5) e f by (simp only: if_False if_True simp_thms)
qed

lemma encode4:
  assumes "h < 8" "m < 64" "n < 64" "l < 64" "0xFFFF < h * 262144 + m * 4096 + n * 64 + l"
    "h * 262144 + m * 4096 + n * 64 + l \<le> 0x10FFFF"
  shows "encodeRune (h * 262144 + m * 4096 + n * 64 + l)
         = [char_of (0xF0 + h), char_of (0x80 + m), char_of (0x80 + n), char_of (0x80 + l)]"
proof -
  let ?r = "h * 262144 + m * 4096 + n * 64 + l"
  have r: "?r = ((h * 64 + m) * 64 + n) * 64 + l" by simp
  have a: "?r mod 64 = l" unfolding r using assms(4) by (rule mod64)
  have b: "?r div 64 = (h * 64 + m) * 64 + n" unfolding r using assms(4) by (rule div64)
  have c: "?r div 64 mod 64 = n" unfolding b using assms(3) by (rule mod64)
  have r2: "?r = (h * 64 + m) * 4096 + (n * 64 + l)" by simp
  have "n * 64 + l < 4096" using assms(3,4) by simp
  then have d: "?r div 4096 = h * 64 + m" unfolding r2 by (rule div4096)
  have e: "?r div 4096 mod 64 = m" unfolding d using assms(2) by (rule mod64)
  have r3: "?r = h * 262144 + (m * 4096 + n * 64 + l)" by simp
  have "m * 4096 + n * 64 + l < 262144" using assms(2,3,4) by simp
  then have f: "?r div 262144 = h" unfolding r3 by (rule div262144)
  have g: "\<not> ?r \<le> 0x7F" "\<not> ?r \<le> 0x7FF" "\<not> 0x10FFFF < ?r" "\<not> ?r \<le> 0xFFFF"
    "\<not> (0xD800 \<le> ?r \<and> ?r \<le> 0xDFFF)"
    using assms(5,6) by simp_all
  show ?thesis
    unfolding encodeRune_def a c e f using g by (simp only: if_False if_True simp_thms)
qed

lemma char_of_lead: "k \<le> of_char c \<Longrightarrow> char_of (k + (of_char c - k :: nat)) = c"
  by simp

lemma char_of_low6: "cont c \<Longrightarrow> char_of (0x80 + low6 c) = c"
  by (simp add: cont_def low6_def)

lemma low6_less: "cont c \<Longrightarrow> low6 c < 64"
  by (auto simp: cont_def low6_def)

lemma encode_decode:
  assumes "decodeRune (c0 # s1) \<noteq> (RuneError, 1)"
  shows "encodeRune (fst (decodeRune (c0 # s1))) = take (snd (decodeRune (c0 # s1))) (c0 # s1)"
  using decodeRune_cases[of c0 s1]
proof (elim disjE exE conjE)
  assume "of_char c0 < (0x80::nat)" "decodeRune (c0 # s1) = (of_char c0, 1)"
  then show ?thesis by (simp add: encodeRune_def)
next
  assume "decodeRune (c0 # s1) = (RuneError, 1)"
  with assms show ?thesis by simp
next
  fix c1 s2
  assume h: "s1 = c1 # s2" "(0xC0::nat) \<le> of_char c0" "of_char c0 < (0xE0::nat)" "cont c1"
    "0x7F < (of_char c0 - 0xC0) * 64 + low6 c1"
    and d: "decodeRune (c0 # s1) = ((of_char c0 - 0xC0) * 64 + low6 c1, 2)"
  have "encodeRune ((of_char c0 - 0xC0) * 64 + low6 c1)
        = [char_of (0xC0 + (of_char c0 - 0xC0 :: nat)), char_of (0x80 + low6 c1)]"
    using h by (intro encode2) (simp_all add: low6_less)
  then show ?thesis
    unfolding d using h by (simp add: char_of_low6)
next
  fix c1 c2 s3
  assume h: "s1 = c1 # c2 # s3" "(0xE0::nat) \<le> of_char c0" "of_char c0 < (0xF0::nat)"
    "cont c1" "cont c2"
    "0x7FF < (of_char c0 - 0xE0) * 4096 + low6 c1 * 64 + low6 c2"
    "\<not> (0xD800 \<le> (of_char c0 - 0xE0) * 4096 + low6 c1 * 64 + low6 c2
        \<and> (of_char c0 - 0xE0) * 4096 + low6 c1 * 64 + low6 c2 \<le> 0xDFFF)"
    and d: "decodeRune (c0 # s1) = ((of_char c0 - 0xE0) * 4096 + low6 c1 * 64 + low6 c2, 3)"
  have "encodeRune ((of_char c0 - 0xE0) * 4096 + low6 c1 * 64 + low6 c2)
        = [char_of (0xE0 + (of_char c0 - 0xE0 :: nat)), char_of (0x80 + low6 c1),
           char_of (0x80 + low6 c2)]"
    using h by (intro encode3) (simp_all add: low6_less)
  then show ?thesis
    unfolding d using h by (simp add: char_of_low6)
next
  fix c1 c2 c3 s4
  assume h: "s1 = c1 # c2 # c3 # s4" "(0xF0::nat) \<le> of_char c0" "of_char c0 < (0xF8::nat)"
    "cont c1" "cont c2" "cont c3"
    "0xFFFF < (of_char c0 - 0xF0) * 262144 + low6 c1 * 4096 + low6 c2 * 64 + low6 c3"
    "(of_char c0 - 0xF0) * 262144 + low6 c1 * 4096 + low6 c2 * 64 + low6 c3 \<le> 0x10FFFF"
    and d: "decodeRune (c0 # s1)
            = ((of_char c0 - 0xF0) * 262144 + low6 c1 * 4096 + low6 c2 * 64 + low6 c3, 4)"
  have "encodeRune ((of_char c0 - 0xF0) * 262144 + low6 c1 * 4096 + low6 c2 * 64 + low6 c3)
        = [char_of (0xF0 + (of_char c0 - 0xF0 :: nat)), char_of (0x80 + low6 c1),
           char_of (0x80 + low6 c2), char_of (0x80 + low6 c3)]"
    using h by (intro encode4) (simp_all add: low6_less)
  then show ?thesis
    unfolding d using h by (simp add: char_of_low6)
qed

lemma recode_Cons:
  "recode (c # s) = encodeRune (fst (decodeRune (c # s)))
                    @ recode (drop (snd (decodeRune (c # s))) (c # s))"
  by (simp add: recode_def runes_Cons)

lemma ValidString_Cons:
  "ValidString (c # s) \<longleftrightarrow> decodeRune (c # s) \<noteq> (RuneError, 1)
     \<and> ValidString (drop (snd (decodeRune (c # s))) (c # s))"
  by (simp add: ValidString_def range_string_Cons)

lemma recode_valid: "ValidString s \<Longrightarrow> recode s = s"
proof (induction s rule: range_string.induct)
  case 1
  show ?case by (simp add: recode_def runes_def range_string.simps)
next
  case (2 c s)
  let ?d = "decodeRune (c # s)"
  from "2.prems" have v: "?d \<noteq> (RuneError, 1)" and rest: "ValidString (drop (snd ?d) (c # s))"
    by (simp_all add: ValidString_Cons)
  have "recode (c # s) = take (snd ?d) (c # s) @ drop (snd ?d) (c # s)"
    unfolding recode_Cons encode_decode[OF v] using "2.IH"[OF rest] by simp
  then show ?case by simp
qed

section \<open>Properties of the template translator\<close>

subsection \<open>Decimal digits\<close>

lemma Itoa_examples:
  "Itoa 0 = ''0'' \<and> Itoa 7 = ''7'' \<and> Itoa 10 = ''10'' \<and> Itoa 42 = ''42'' \<and> Itoa 1234 = ''1234''"
  by (simp add: Itoa.simps digit_def)

subsection \<open>ASCII characters in the loops\<close>

lemma of_char_open: "(of_char c = (123::nat)) \<longleftrightarrow> c = CHR ''{''"
  using of_char_eq_iff[of c "CHR ''{''", where ?'a = nat] by simp

lemma of_char_close: "(of_char c = (125::nat)) \<longleftrightarrow> c = CHR ''}''"
  using of_char_eq_iff[of c "CHR ''}''", where ?'a = nat] by simp

lemma runes_ascii_Cons: "of_char c < (0x80::nat) \<Longrightarrow> runes (c # s) = of_char c # runes s"
  using runes_split[of c "[]" s] by (simp add: runes_Nil)

lemma encodeRune_ascii: "of_char c < (0x80::nat) \<Longrightarrow> encodeRune (of_char c) = [c]"
  by (simp add: encodeRune_def)

lemma recode_Nil: "recode [] = []"
  by (simp add: recode_def runes_Nil)

lemma recode_ascii_Cons: "of_char c < (0x80::nat) \<Longrightarrow> recode (c # s) = c # recode s"
  by (simp add: recode_def runes_ascii_Cons encodeRune_ascii)

lemma ValidString_Nil: "ValidString []"
  by (simp add: ValidString_def range_string.simps)

lemma ValidString_ascii_Cons: "of_char c < (0x80::nat) \<Longrightarrow> ValidString (c # s) = ValidString s"
  using ValidString_split[of c "[]" s] by (simp add: ValidString_Nil)

lemma scan_ascii_step:
  "of_char c < (0x80::nat) \<Longrightarrow>
   extractArgs_scan (runes (c # s)) (b, pn, pns) =
     extractArgs_scan (runes s)
       (if c = CHR ''{'' then (True, [], pns)
        else if c = CHR ''}'' \<and> b then (False, pn, pns @ [pn])
        else if b then (b, pn @ [c], pns)
        else (b, pn, pns))"
  by (simp add: runes_ascii_Cons encodeRune_ascii of_char_open of_char_close)

lemma scan_end: "extractArgs_scan (runes []) st = st"
  by (simp add: runes_Nil)

lemma replace_ascii_step:
  "of_char c < (0x80::nat) \<Longrightarrow>
   replaceNamedParams_loop (runes (c # s)) (result, b, k) =
     replaceNamedParams_loop (runes s)
       (if c = CHR ''{'' then (result @ Sprintf_marker k, True, k + 1)
        else if c = CHR ''}'' \<and> b then (result, False, k)
        else if \<not> b then (result @ [c], b, k)
        else (result, b, k))"
  by (simp add: runes_ascii_Cons encodeRune_ascii of_char_open of_char_close)

lemma replace_end: "replaceNamedParams_loop (runes []) st = st"
  by (simp add: runes_Nil)

lemmas ascii_steps = scan_ascii_step scan_end replace_ascii_step replace_end

subsection \<open>The two loops, piece by piece\<close>

lemma runes_append_ascii:
  "of_char c < (0x80::nat) \<Longrightarrow> runes (xs @ c # ys) = runes xs @ runes (c # ys)"
  by (simp add: runes_split runes_ascii_Cons)

lemma runes_append_segments: "runes (lit @ segments segs) = runes lit @ runes (segments segs)"
proof (cases segs)
  case Nil
  then show ?thesis by (simp add: runes_Nil)
next
  case (Cons s segs')
  obtain name lit' where "s = (name, lit')" by (cases s)
  with Cons show ?thesis
    using runes_append_ascii[of "CHR ''{''" lit "name @ CHR ''}'' # lit' @ segments segs'"]
    by simp
qed

lemma ValidString_append_segments:
  "ValidString (lit @ segments segs) \<longleftrightarrow> ValidString lit \<and> ValidString (segments segs)"
proof (cases segs)
  case Nil
  then show ?thesis by (simp add: ValidString_Nil)
next
  case (Cons s segs')
  obtain name lit' where "s = (name, lit')" by (cases s)
  with Cons show ?thesis
    using ValidString_split[of "CHR ''{''" lit "name @ CHR ''}'' # lit' @ segments segs'"]
      ValidString_ascii_Cons[of "CHR ''{''" "name @ CHR ''}'' # lit' @ segments segs'"]
    by simp
qed

lemma ValidString_segments_Cons:
  "ValidString (segments ((name, lit) # segs))
   \<longleftrightarrow> ValidString name \<and> ValidString lit \<and> ValidString (segments segs)"
  using ValidString_ascii_Cons[of "CHR ''{''" "name @ CHR ''}'' # lit @ segments segs"]
    ValidString_split[of "CHR ''}''" name "lit @ segments segs"]
    ValidString_append_segments[of lit segs]
  by simp

lemma ValidString_segments:
  "ValidString (segments segs) \<Longrightarrow>
   \<forall>(name, lit) \<in> set segs. ValidString name \<and> ValidString lit"
proof (induction segs)
  case Nil
  then show ?case by simp
next
  case (Cons s segs)
  obtain name' lit' where s: "s = (name', lit')" by (cases s)
  from Cons.prems[unfolded s ValidString_segments_Cons]
  have v: "ValidString name'" "ValidString lit'" "ValidString (segments segs)"
    by simp_all
  from Cons.IH[OF v(3)] v(1,2) show ?case
    by (simp add: s)
qed

lemma ValidString_template:
  assumes "ValidString (template lit segs)"
  shows "ValidString lit" and "\<forall>(name, lit') \<in> set segs. ValidString name \<and> ValidString lit'"
proof -
  from assms have l: "ValidString lit" and s: "ValidString (segments segs)"
    by (simp_all add: template_def ValidString_append_segments)
  show "ValidString lit" by (rule l)
  show "\<forall>(name, lit') \<in> set segs. ValidString name \<and> ValidString lit'"
    by (rule ValidString_segments[OF s])
qed

lemma scan_append:
  "extractArgs_scan (xs @ ys) st = extractArgs_scan ys (extractArgs_scan xs st)"
  by (induction xs st rule: extractArgs_scan.induct) simp_all

lemma scan_literal_runes:
  "123 \<notin> set rs \<Longrightarrow> extractArgs_scan rs (False, pn, pns) = (False, pn, pns)"
  by (induction rs) auto

lemma scan_name_runes:
  "123 \<notin> set rs \<Longrightarrow> 125 \<notin> set rs \<Longrightarrow>
   extractArgs_scan rs (True, pn, pns) = (True, pn @ concat (map encodeRune rs), pns)"
  by (induction rs arbitrary: pn) auto

lemma scan_unclosed_runes:
  "125 \<notin> set rs \<Longrightarrow> \<exists>pn'. extractArgs_scan rs (True, pn, pns) = (True, pn', pns)"
  by (induction rs arbitrary: pn) auto

lemma scan_literal:
  "CHR ''{'' \<notin> set lit \<Longrightarrow> extractArgs_scan (runes lit) (False, pn, pns) = (False, pn, pns)"
  by (simp add: scan_literal_runes open_in_runes)

lemma scan_name:
  "CHR ''{'' \<notin> set name \<Longrightarrow> CHR ''}'' \<notin> set name \<Longrightarrow>
   extractArgs_scan (runes name) (True, pn, pns) = (True, pn @ recode name, pns)"
  by (simp add: scan_name_runes open_in_runes close_in_runes recode_def)

lemma scan_unclosed:
  "CHR ''}'' \<notin> set rest \<Longrightarrow>
   \<exists>pn'. extractArgs_scan (runes rest) (True, pn, pns) = (True, pn', pns)"
  by (simp add: scan_unclosed_runes close_in_runes)

lemma scan_open:
  "extractArgs_scan (runes (xs @ CHR ''{'' # ys)) st
   = extractArgs_scan (runes ys) (True, [], snd (snd (extractArgs_scan (runes xs) st)))"
proof -
  obtain b pn pns where st: "extractArgs_scan (runes xs) st = (b, pn, pns)"
    by (cases "extractArgs_scan (runes xs) st") auto
  have "runes (xs @ CHR ''{'' # ys) = runes xs @ 123 # runes ys"
    using runes_split[of "CHR ''{''" xs ys] by simp
  then show ?thesis by (simp add: scan_append st)
qed

lemma scan_close:
  assumes "CHR ''{'' \<notin> set name" "CHR ''}'' \<notin> set name"
  shows "extractArgs_scan (runes (name @ CHR ''}'' # rest)) (True, pn, pns)
         = extractArgs_scan (runes rest) (False, pn @ recode name, pns @ [pn @ recode name])"
proof -
  have "runes (name @ CHR ''}'' # rest) = runes name @ 125 # runes rest"
    using runes_split[of "CHR ''}''" name rest] by simp
  then show ?thesis using assms by (simp add: scan_append scan_name)
qed

lemma scan_placeholder:
  assumes "CHR ''{'' \<notin> set name" "CHR ''}'' \<notin> set name"
  shows "extractArgs_scan (runes (CHR ''{'' # name @ CHR ''}'' # rest)) (b, pn, pns)
         = extractArgs_scan (runes rest) (False, recode name, pns @ [recode name])"
  using scan_open[of "[]" "name @ CHR ''}'' # rest" "(b, pn, pns)"] scan_close[OF assms, of rest "[]" pns]
  by (simp add: runes_Nil)

lemma scan_segments:
  assumes "\<forall>(name, lit') \<in> set segs.
        CHR ''{'' \<notin> set name \<and> CHR ''}'' \<notin> set name \<and> CHR ''{'' \<notin> set lit'"
  shows "\<exists>pn'. extractArgs_scan (runes (segments segs)) (False, pn, pns)
               = (False, pn', pns @ map (\<lambda>(name, lit'). recode name) segs)"
  using assms
proof (induction segs arbitrary: pn pns)
  case Nil
  then show ?case by (simp add: runes_Nil)
next
  case (Cons s segs)
  obtain name lit where s: "s = (name, lit)" by (cases s)
  from Cons.prems s have n: "CHR ''{'' \<notin> set name" "CHR ''}'' \<notin> set name" "CHR ''{'' \<notin> set lit"
    and rest: "\<forall>(name, lit') \<in> set segs.
        CHR ''{'' \<notin> set name \<and> CHR ''}'' \<notin> set name \<and> CHR ''{'' \<notin> set lit'"
    by auto
  have "extractArgs_scan (runes (segments (s # segs))) (False, pn, pns)
        = extractArgs_scan (runes (lit @ segments segs)) (False, recode name, pns @ [recode name])"
    unfolding s segments.simps by (rule scan_placeholder[OF n(1,2)])
  also have "\<dots> = extractArgs_scan (runes (segments segs)) (False, recode name, pns @ [recode name])"
    unfolding runes_append_segments scan_append scan_literal[OF n(3)] ..
  finally show ?case
    using Cons.IH[OF rest, of "recode name" "pns @ [recode name]"] by (auto simp: s)
qed

lemma paramNames_template:
  assumes "well_formed lit segs"
  shows "paramNames (template lit segs) = map (\<lambda>(name, lit'). recode name) segs"
proof -
  from assms have lit: "CHR ''{'' \<notin> set lit"
    and segs: "\<forall>(name, lit') \<in> set segs.
        CHR ''{'' \<notin> set name \<and> CHR ''}'' \<notin> set name \<and> CHR ''{'' \<notin> set lit'"
    by (simp_all add: well_formed_def)
  obtain pn' where "extractArgs_scan (runes (segments segs)) (False, [], [])
               = (False, pn', [] @ map (\<lambda>(name, lit'). recode name) segs)"
    using scan_segments[OF segs, of "[]" "[]"] by (elim exE)
  then show ?thesis
    unfolding paramNames_def template_def runes_append_segments scan_append scan_literal[OF lit]
    by simp
qed

lemma paramNames_valid_template:
  assumes "well_formed lit segs" "ValidString (template lit segs)"
  shows "paramNames (template lit segs) = map fst segs"
proof -
  have "map (\<lambda>(name, lit'). recode name) segs = map fst segs"
    using ValidString_template(2)[OF assms(2)] by (intro map_cong) (auto simp: recode_valid)
  then show ?thesis using paramNames_template[OF assms(1)] by simp
qed

lemma lookup_find:
  "extractArgs_lookup names p args =
     (case find (\<lambda>name. p name = None) names of
        Some name \<Rightarrow> (None, Some (MissingParameter name))
      | None \<Rightarrow> (Some (args @ map (\<lambda>name. the (p name)) names), None))"
  by (induction names arbitrary: args) (auto split: option.splits)

lemma lookup_all_present:
  "\<forall>name \<in> set names. p name \<noteq> None \<Longrightarrow>
   extractArgs_lookup names p args = (Some (args @ map (\<lambda>name. the (p name)) names), None)"
  by (induction names arbitrary: args) (auto split: option.splits)

lemma find_None_iff2: "(find P xs = None) = (\<not> (\<exists>x \<in> set xs. P x))"
  by (induction xs) auto

lemma replace_append:
  "replaceNamedParams_loop (xs @ ys) st = replaceNamedParams_loop ys (replaceNamedParams_loop xs st)"
  by (induction xs st rule: replaceNamedParams_loop.induct) simp_all

lemma replace_literal_runes:
  "123 \<notin> set rs \<Longrightarrow>
   replaceNamedParams_loop rs (result, False, k) = (result @ concat (map encodeRune rs), False, k)"
  by (induction rs arbitrary: result) auto

lemma replace_name_runes:
  "123 \<notin> set rs \<Longrightarrow> 125 \<notin> set rs \<Longrightarrow>
   replaceNamedParams_loop rs (result, True, k) = (result, True, k)"
  by (induction rs) auto

lemma replace_literal:
  "CHR ''{'' \<notin> set lit \<Longrightarrow>
   replaceNamedParams_loop (runes lit) (result, False, k) = (result @ recode lit, False, k)"
  by (simp add: replace_literal_runes open_in_runes recode_def)

lemma replace_name:
  "CHR ''{'' \<notin> set name \<Longrightarrow> CHR ''}'' \<notin> set name \<Longrightarrow>
   replaceNamedParams_loop (runes name) (result, True, k) = (result, True, k)"
  by (simp add: replace_name_runes open_in_runes close_in_runes)

lemma replace_placeholder:
  assumes "CHR ''{'' \<notin> set name" "CHR ''}'' \<notin> set name"
  shows "replaceNamedParams_loop (runes (CHR ''{'' # name @ CHR ''}'' # rest)) (result, b, k)
         = replaceNamedParams_loop (runes rest) (result @ Sprintf_marker k, False, Suc k)"
proof -
  have "runes (CHR ''{'' # name @ CHR ''}'' # rest) = 123 # runes name @ 125 # runes rest"
    using runes_split[of "CHR ''}''" name rest] by (simp add: runes_ascii_Cons)
  then show ?thesis using assms by (simp add: replace_append replace_name)
qed

lemma replace_segments:
  assumes "\<forall>(name, lit') \<in> set segs.
        CHR ''{'' \<notin> set name \<and> CHR ''}'' \<notin> set name \<and> CHR ''{'' \<notin> set lit'"
    and "\<forall>(name, lit') \<in> set segs. ValidString lit'"
  shows "replaceNamedParams_loop (runes (segments segs)) (result, False, k)
         = (result @ markers_from k segs, False, k + length segs)"
  using assms
proof (induction segs arbitrary: result k)
  case Nil
  then show ?case by (simp add: runes_Nil)
next
  case (Cons s segs)
  obtain name lit where s: "s = (name, lit)" by (cases s)
  from Cons.prems s have n: "CHR ''{'' \<notin> set name" "CHR ''}'' \<notin> set name" "CHR ''{'' \<notin> set lit"
    and v: "ValidString lit"
    and rest: "\<forall>(name, lit') \<in> set segs.
        CHR ''{'' \<notin> set name \<and> CHR ''}'' \<notin> set name \<and> CHR ''{'' \<notin> set lit'"
      "\<forall>(name, lit') \<in> set segs. ValidString lit'"
    by auto
  have "replaceNamedParams_loop (runes (segments (s # segs))) (result, False, k)
        = replaceNamedParams_loop (runes (lit @ segments segs)) (result @ Sprintf_marker k, False, Suc k)"
    unfolding s segments.simps by (rule replace_placeholder[OF n(1,2)])
  also have "\<dots> = replaceNamedParams_loop (runes (segments segs))
                      ((result @ Sprintf_marker k) @ lit, False, Suc k)"
    unfolding runes_append_segments replace_append replace_literal[OF n(3)] recode_valid[OF v] ..
  also have "\<dots> = (((result @ Sprintf_marker k) @ lit) @ markers_from (Suc k) segs, False,
      Suc k + length segs)"
    by (rule Cons.IH[OF rest])
  finally show ?case by (simp add: s Sprintf_marker_def)
qed

lemma replaceNamedParams_template:
  assumes "well_formed lit segs" "ValidString (template lit segs)"
  shows "replaceNamedParams (template lit segs) = lit @ markers_from 1 segs"
proof -
  from assms(1) have lit: "CHR ''{'' \<notin> set lit"
    and segs: "\<forall>(name, lit') \<in> set segs.
        CHR ''{'' \<notin> set name \<and> CHR ''}'' \<notin> set name \<and> CHR ''{'' \<notin> set lit'"
    by (simp_all add: well_formed_def)
  have v: "\<forall>(name, lit') \<in> set segs. ValidString lit'"
    using ValidString_template(2)[OF assms(2)] by auto
  show ?thesis
    unfolding replaceNamedParams_def template_def runes_append_segments replace_append
      replace_literal[OF lit] recode_valid[OF ValidString_template(1)[OF assms(2)]]
    by (simp add: replace_segments[OF segs v])
qed

lemma replace_count_runes:
  "snd (snd (replaceNamedParams_loop rs (result, b, k))) = k + count_list rs 123"
  by (induction rs arbitrary: result b k) auto

lemma replace_count:
  "snd (snd (replaceNamedParams_loop (runes q) (result, b, k))) = k + count_list q CHR ''{''"
  by (simp add: replace_count_runes count_runes_open)

lemma upt_Suc_head: "[k..<k + Suc m] = k # [Suc k..<Suc k + m]"
proof -
  have "k < k + Suc m" by simp
  then have "[k..<k + Suc m] = k # [Suc k..<k + Suc m]"
    by (rule upt_conv_Cons)
  then show ?thesis by (simp only: add_Suc add_Suc_right)
qed

lemma replace_unclosed_runes:
  "125 \<notin> set rest \<Longrightarrow>
   replaceNamedParams_loop rest (result, True, k)
     = (result @ concat (map Sprintf_marker [k..<k + count_list rest 123]), True,
        k + count_list rest 123)"
proof (induction rest arbitrary: result k)
  case Nil
  then show ?case by simp
next
  case (Cons c rest)
  then have no: "125 \<notin> set rest" and c: "c \<noteq> 125"
    by auto
  show ?case
  proof (cases "c = 123")
    case True
    have "replaceNamedParams_loop (c # rest) (result, True, k)
          = replaceNamedParams_loop rest (result @ Sprintf_marker k, True, Suc k)"
      by (simp add: True)
    also have "\<dots> = ((result @ Sprintf_marker k)
                        @ concat (map Sprintf_marker [Suc k..<Suc k + count_list rest 123]),
                      True, Suc k + count_list rest 123)"
      by (rule Cons.IH[OF no])
    also have "\<dots> = (result @ concat (map Sprintf_marker [k..<k + Suc (count_list rest 123)]),
                      True, k + Suc (count_list rest 123))"
      unfolding upt_Suc_head by simp
    finally show ?thesis by (simp add: True)
  next
    case False
    then show ?thesis using Cons.IH[OF no, of result k] c by simp
  qed
qed

lemma replace_unclosed:
  "CHR ''}'' \<notin> set rest \<Longrightarrow>
   replaceNamedParams_loop (runes rest) (result, True, k)
     = (result @ concat (map Sprintf_marker [k..<k + count_list rest CHR ''{'']), True,
        k + count_list rest CHR ''{'')"
  using replace_unclosed_runes[of "runes rest" result k]
  by (simp add: close_in_runes count_runes_open)

lemma replaceNamedParams_open:
  assumes "CHR ''}'' \<notin> set rest"
  shows "replaceNamedParams (q @ CHR ''{'' # rest)
           = replaceNamedParams q
             @ concat (map Sprintf_marker
                 [Suc (count_list q CHR ''{'')
                  ..<Suc (count_list q CHR ''{'') + Suc (count_list rest CHR ''{'')])"
proof -
  obtain r b k where st: "replaceNamedParams_loop (runes q) ([], False, Suc 0) = (r, b, k)"
    by (cases "replaceNamedParams_loop (runes q) ([], False, Suc 0)") auto
  have k: "k = Suc (count_list q CHR ''{'')"
    using replace_count[of q "[]" False "Suc 0"] st by simp
  have split: "runes (q @ CHR ''{'' # rest) = runes q @ 123 # runes rest"
    using runes_split[of "CHR ''{''" q rest] by simp
  have "replaceNamedParams (q @ CHR ''{'' # rest)
        = fst (replaceNamedParams_loop (runes rest) (r @ Sprintf_marker k, True, Suc k))"
    by (simp add: replaceNamedParams_def split replace_append st)
  also have "\<dots> = r @ Sprintf_marker k
                     @ concat (map Sprintf_marker [Suc k..<Suc k + count_list rest CHR ''{''])"
    by (simp add: replace_unclosed[OF assms])
  also have "\<dots> = r @ concat (map Sprintf_marker [k..<k + Suc (count_list rest CHR ''{'')])"
    unfolding upt_Suc_head by simp
  finally show ?thesis
    by (simp only: k) (simp add: replaceNamedParams_def st)
qed

lemma count_segments:
  "\<forall>(name, lit') \<in> set segs.
        CHR ''{'' \<notin> set name \<and> CHR ''}'' \<notin> set name \<and> CHR ''{'' \<notin> set lit' \<Longrightarrow>
   count_list (segments segs) CHR ''{'' = length segs"
  by (induction segs) (auto simp: count_list_0_iff)

lemma count_template:
  "well_formed lit segs \<Longrightarrow> count_list (template lit segs) CHR ''{'' = length segs"
  unfolding template_def well_formed_def
  by (simp add: count_segments count_list_0_iff)

lemma extractArgs_find:
  "extractArgs t p =
       (case find (\<lambda>name. p name = None) (paramNames t) of
          Some name \<Rightarrow> (None, Some (MissingParameter name))
        | None \<Rightarrow> (Some (map (\<lambda>name. the (p name)) (paramNames t)), None))"
  using lookup_find[of "paramNames t" p "[]"]
  by (simp add: extractArgs_def split: option.splits)

lemma extractArgs_all_present:
  assumes "\<forall>(name, lit') \<in> set segs. p name \<noteq> None" and "paramNames t = map fst segs"
  shows "extractArgs t p = (Some (map (\<lambda>(name, lit'). the (p name)) segs), None)"
proof -
  have "\<forall>name \<in> set (map fst segs). p name \<noteq> None"
    using assms(1) by auto
  then have "extractArgs_lookup (map fst segs) p []
             = (Some ([] @ map (\<lambda>name. the (p name)) (map fst segs)), None)"
    by (rule lookup_all_present)
  moreover have "map (\<lambda>name. the (p name)) (map fst segs) = map (\<lambda>(name, lit'). the (p name)) segs"
    by (induction segs) auto
  ultimately show ?thesis by (simp add: extractArgs_def assms(2))
qed

lemma paramNames_open:
  assumes "CHR ''}'' \<notin> set rest"
  shows "paramNames (pre @ CHR ''{'' # rest) = paramNames pre"
proof -
  obtain b pn pns where st: "extractArgs_scan (runes pre) (False, [], []) = (b, pn, pns)"
    by (cases "extractArgs_scan (runes pre) (False, [], [])") auto
  obtain pn' where "extractArgs_scan (runes rest) (True, [], pns) = (True, pn', pns)"
    using scan_unclosed[OF assms, of "[]" pns] by (elim exE)
  then show ?thesis
    by (simp add: paramNames_def scan_open st)
qed

subsection \<open>The names of the completed placeholders\<close>

lemma text_split: "c \<in> set s \<Longrightarrow> s = text_before c s @ c # text_after c s"
  by (induction s) (auto simp: text_before_def text_after_def)

lemma text_before_no: "c \<notin> set (text_before c s)"
  by (induction s) (auto simp: text_before_def)

lemma text_before_append: "c \<notin> set xs \<Longrightarrow> text_before c (xs @ c # ys) = xs"
  by (induction xs) (auto simp: text_before_def)

lemma text_after_append: "c \<notin> set xs \<Longrightarrow> text_after c (xs @ c # ys) = ys"
  by (induction xs) (auto simp: text_after_def)

lemma text_after_last_none: "c \<notin> set s \<Longrightarrow> text_after_last c s = s"
proof -
  assume "c \<notin> set s"
  then have tw: "takeWhile (\<lambda>x. x \<noteq> c) (rev s) = rev s"
    by (intro takeWhile_eq_all_conv[THEN iffD2]) auto
  show ?thesis unfolding text_after_last_def tw by simp
qed

lemma text_after_last_append: "c \<notin> set zs \<Longrightarrow> text_after_last c (ys @ c # zs) = zs"
proof -
  assume c: "c \<notin> set zs"
  have "takeWhile (\<lambda>x. x \<noteq> c) (rev zs @ c # rev ys) = rev zs @ takeWhile (\<lambda>x. x \<noteq> c) (c # rev ys)"
    using c by (intro takeWhile_append2) auto
  then show ?thesis by (simp add: text_after_last_def)
qed

lemma placeholder_names_none: "CHR ''{'' \<notin> set t \<Longrightarrow> placeholder_names t = []"
  by (simp add: placeholder_names.simps)

lemma placeholder_names_open:
  assumes "CHR ''{'' \<notin> set lit"
  shows "placeholder_names (lit @ CHR ''{'' # opened)
         = (if CHR ''}'' \<in> set opened
            then text_after_last CHR ''{'' (text_before CHR ''}'' opened)
                 # placeholder_names (text_after CHR ''}'' opened)
            else [])"
  using placeholder_names.simps[of "lit @ CHR ''{'' # opened"]
  by (simp add: text_after_append[OF assms])

lemma scan_body:
  assumes "CHR ''}'' \<notin> set body"
  shows "extractArgs_scan (runes body) (True, [], pns)
         = (True, recode (text_after_last CHR ''{'' body), pns)"
proof (cases "CHR ''{'' \<in> set body")
  case False
  then show ?thesis
    using assms by (simp add: scan_name text_after_last_none)
next
  case True
  from split_list_last[OF True]
  obtain ys zs where body: "body = ys @ CHR ''{'' # zs" and zs: "CHR ''{'' \<notin> set zs"
    by (elim exE conjE)
  from assms body have no: "CHR ''}'' \<notin> set ys" "CHR ''}'' \<notin> set zs"
    by simp_all
  obtain pn' where ys: "extractArgs_scan (runes ys) (True, [], pns) = (True, pn', pns)"
    using scan_unclosed[OF no(1), of "[]" pns] by (elim exE)
  have "extractArgs_scan (runes body) (True, [], pns)
        = extractArgs_scan (runes zs) (True, [], pns)"
    unfolding body scan_open ys by simp
  also have "\<dots> = (True, recode zs, pns)"
    using zs no(2) by (simp add: scan_name)
  finally show ?thesis
    by (simp add: body text_after_last_append[OF zs])
qed

lemma scan_placeholder_names:
  "snd (snd (extractArgs_scan (runes t) (False, pn, pns)))
   = pns @ map recode (placeholder_names t)"
proof (induction t arbitrary: pn pns rule: placeholder_names.induct)
  case (1 t)
  show ?case
  proof (cases "CHR ''{'' \<in> set t")
    case False
    then show ?thesis
      by (simp add: scan_literal placeholder_names_none)
  next
    case True
    define lit where "lit = text_before CHR ''{'' t"
    define opened where "opened = text_after CHR ''{'' t"
    have t: "t = lit @ CHR ''{'' # opened"
      unfolding lit_def opened_def by (rule text_split[OF True])
    have lit: "CHR ''{'' \<notin> set lit"
      unfolding lit_def by (rule text_before_no)
    have start: "extractArgs_scan (runes t) (False, pn, pns)
                 = extractArgs_scan (runes opened) (True, [], pns)"
      unfolding t scan_open scan_literal[OF lit] by simp
    show ?thesis
    proof (cases "CHR ''}'' \<in> set opened")
      case False
      obtain pn' where "extractArgs_scan (runes opened) (True, [], pns) = (True, pn', pns)"
        using scan_unclosed[OF False, of "[]" pns] by (elim exE)
      moreover have "placeholder_names t = []"
        unfolding t placeholder_names_open[OF lit] using False by simp
      ultimately show ?thesis by (simp add: start)
    next
      case close: True
      define body where "body = text_before CHR ''}'' opened"
      define rest where "rest = text_after CHR ''}'' opened"
      define name where "name = recode (text_after_last CHR ''{'' body)"
      have opened: "opened = body @ CHR ''}'' # rest"
        unfolding body_def rest_def by (rule text_split[OF close])
      have body: "CHR ''}'' \<notin> set body"
        unfolding body_def by (rule text_before_no)
      have split: "runes (body @ CHR ''}'' # rest) = runes body @ 125 # runes rest"
        using runes_split[of "CHR ''}''" body rest] by simp
      have "extractArgs_scan (runes opened) (True, [], pns)
            = extractArgs_scan (runes rest) (False, name, pns @ [name])"
        unfolding opened split scan_append scan_body[OF body] name_def by simp
      moreover have "snd (snd (extractArgs_scan (runes rest) (False, name, pns @ [name])))
                     = (pns @ [name]) @ map recode (placeholder_names rest)"
        using "1.IH"[of name "pns @ [name]"] True close
        by (simp add: rest_def opened_def)
      moreover have "placeholder_names t
                     = text_after_last CHR ''{'' body # placeholder_names rest"
        unfolding t placeholder_names_open[OF lit] body_def rest_def using close by simp
      ultimately show ?thesis by (simp add: start name_def)
    qed
  qed
qed

lemma paramNames_placeholder_names: "paramNames t = map recode (placeholder_names t)"
  using scan_placeholder_names[of t "[]" "[]"] by (simp add: paramNames_def)

lemma ValidString_after_last:
  assumes "ValidString body"
  shows "ValidString (text_after_last CHR ''{'' body)"
proof (cases "CHR ''{'' \<in> set body")
  case False
  then show ?thesis using assms by (simp add: text_after_last_none)
next
  case True
  from split_list_last[OF True]
  obtain ys zs where body: "body = ys @ CHR ''{'' # zs" and zs: "CHR ''{'' \<notin> set zs"
    by (elim exE conjE)
  have "ValidString zs"
    using assms ValidString_split[of "CHR ''{''" ys zs] by (simp add: body)
  then show ?thesis by (simp add: body text_after_last_append[OF zs])
qed

lemma ValidString_placeholder_names:
  "ValidString t \<Longrightarrow> \<forall>name \<in> set (placeholder_names t). ValidString name"
proof (induction t rule: placeholder_names.induct)
  case (1 t)
  show ?case
  proof (cases "CHR ''{'' \<in> set t \<and> CHR ''}'' \<in> set (text_after CHR ''{'' t)")
    case False
    then have "placeholder_names t = []"
      using placeholder_names.simps[of t] by simp
    then show ?thesis by simp
  next
    case True
    define lit where "lit = text_before CHR ''{'' t"
    define opened where "opened = text_after CHR ''{'' t"
    define body where "body = text_before CHR ''}'' opened"
    define rest where "rest = text_after CHR ''}'' opened"
    have t: "t = lit @ CHR ''{'' # opened"
      unfolding lit_def opened_def using True by (intro text_split) simp
    have opened: "opened = body @ CHR ''}'' # rest"
      unfolding body_def rest_def using True by (intro text_split) (simp add: opened_def)
    have "ValidString opened"
      using "1.prems" ValidString_split[of "CHR ''{''" lit opened] by (simp add: t[symmetric])
    then have v: "ValidString body" "ValidString rest"
      using ValidString_split[of "CHR ''}''" body rest] by (simp_all add: opened[symmetric])
    have names: "placeholder_names t
                 = text_after_last CHR ''{'' body # placeholder_names rest"
      using placeholder_names.simps[of t] True
      by (simp add: body_def rest_def opened_def)
    have "\<forall>name \<in> set (placeholder_names rest). ValidString name"
      using "1.IH"[OF True] v(2) by (simp add: rest_def opened_def)
    then show ?thesis
      using ValidString_after_last[OF v(1)] by (simp add: names)
  qed
qed

lemma paramNames_valid:
  assumes "ValidString t"
  shows "paramNames t = placeholder_names t"
proof -
  have "map recode (placeholder_names t) = map (\<lambda>name. name) (placeholder_names t)"
    using ValidString_placeholder_names[OF assms] by (intro map_cong) (simp_all add: recode_valid)
  then show ?thesis by (simp add: paramNames_placeholder_names)
qed

lemma placeholder_names_template:
  "well_formed lit segs \<Longrightarrow> placeholder_names (template lit segs) = map fst segs"
proof (induction segs arbitrary: lit)
  case Nil
  then show ?case by (simp add: well_formed_def template_def placeholder_names_none)
next
  case (Cons s segs)
  obtain name lit' where s: "s = (name, lit')" by (cases s)
  from Cons.prems have lit: "CHR ''{'' \<notin> set lit"
    and n: "CHR ''{'' \<notin> set name" "CHR ''}'' \<notin> set name"
    and wf: "well_formed lit' segs"
    by (simp_all add: well_formed_def s)
  have "placeholder_names (template lit (s # segs))
        = placeholder_names (lit @ CHR ''{'' # name @ CHR ''}'' # template lit' segs)"
    by (simp add: template_def s)
  also have "\<dots> = name # placeholder_names (template lit' segs)"
    unfolding placeholder_names_open[OF lit]
    by (simp add: text_before_append[OF n(2)] text_after_append[OF n(2)]
        text_after_last_none[OF n(1)])
  finally show ?case using Cons.IH[OF wf] by (simp add: s)
qed

subsection \<open>The claims\<close>

text \<open>
  C1, as stated, fails: for the template \<open>{a\<close>, whose brace is never closed,
  \<^verbatim>\<open>replaceNamedParams\<close> returns the statement \<open>$1\<close>, one marker, while
  \<^verbatim>\<open>extractArgs\<close> returns the empty vector with no error, although the map holds \<open>a\<close>.
\<close>

theorem unclosed_brace_marker_without_value:
  "replaceNamedParams ''{a'' = ''$1''
   \<and> extractArgs ''{a'' (map_of [(''a'', Val (1::int))]) = (Some [], None)"
  by (simp add: extractArgs_def paramNames_def replaceNamedParams_def Sprintf_marker_def
      Itoa.simps digit_def ascii_steps)

text \<open>
  C1, amended. For every template that is valid UTF-8 and has well-formed placeholders
  (every \<open>{\<close> is closed by a \<open>}\<close> before the next \<open>{\<close> and before the end of the
  string), and every parameter map that holds each placeholder name:
  \<^verbatim>\<open>replaceNamedParams\<close> returns the template with its i-th placeholder replaced by the
  marker \<open>$i\<close>, for i from 1 to the number n of placeholders and in their order, the text
  outside them unchanged; and \<^verbatim>\<open>extractArgs\<close> returns, with no error, the vector of n
  values whose i-th entry is the map's value for the name of the i-th placeholder.
\<close>

theorem translate_extract_consistent:
  assumes "well_formed lit segs" and "ValidString (template lit segs)"
    and "\<forall>(name, lit') \<in> set segs. p name \<noteq> None"
  shows "replaceNamedParams (template lit segs) = lit @ markers_from 1 segs
       \<and> extractArgs (template lit segs) p
           = (Some (map (\<lambda>(name, lit'). the (p name)) segs), None)"
  using replaceNamedParams_template[OF assms(1,2)]
    extractArgs_all_present[OF assms(3) paramNames_valid_template[OF assms(1,2)]]
  by simp

theorem translate_extract_consistent_witness:
  "well_formed ''SELECT * FROM users WHERE name = '' [(''name'', '' AND email = ''), (''email'', [])]
   \<and> ValidString ''SELECT * FROM users WHERE name = {name} AND email = {email}''
   \<and> replaceNamedParams ''SELECT * FROM users WHERE name = {name} AND email = {email}''
       = ''SELECT * FROM users WHERE name = $1 AND email = $2''
   \<and> extractArgs ''SELECT * FROM users WHERE name = {name} AND email = {email}''
         (map_of [(''email'', Val ''alice@example.com''), (''name'', Val ''Alice'')])
       = (Some [Val ''Alice'', Val ''alice@example.com''], None)"
  using translate_extract_consistent
    [of "''SELECT * FROM users WHERE name = ''" "[(''name'', '' AND email = ''), (''email'', [])]"
      "map_of [(''email'', Val ''alice@example.com''), (''name'', Val ''Alice'')]"]
  by (simp add: well_formed_def template_def Itoa.simps digit_def ValidString_ascii_Cons
      ValidString_Nil)

text \<open>
  C2. Repeated names are not coalesced: for the template \<open>{a}{b}{a}\<close> and the map
  \<open>{a: 1, b: 2}\<close>, \<^verbatim>\<open>extractArgs\<close> returns the vector \<open>[1, 2, 1]\<close>, one entry for each
  occurrence, with no error, and \<^verbatim>\<open>replaceNamedParams\<close> returns \<open>$1$2$3\<close>, a fresh
  marker for each occurrence.
\<close>

theorem repeated_names_not_coalesced:
  "extractArgs ''{a}{b}{a}'' (map_of [(''a'', Val (1::int)), (''b'', Val 2)])
     = (Some [Val 1, Val 2, Val 1], None)
   \<and> replaceNamedParams ''{a}{b}{a}'' = ''$1$2$3''"
  by (simp add: extractArgs_def paramNames_def replaceNamedParams_def Sprintf_marker_def
      Itoa.simps digit_def ascii_steps)

text \<open>
  C3, as stated, fails for a template that is not valid UTF-8. The template of the three
  bytes \<open>{\<close>, FF, \<open>}\<close> has one completed placeholder, whose name is the byte FF, and
  the map holds that name; yet \<^verbatim>\<open>extractArgs\<close> returns the nil vector and the
  missing-parameter error, for the name EF BF BD that the loop has built from the byte.
\<close>

theorem invalid_byte_name_not_found:
  "placeholder_names [CHR ''{'', CHR 0xFF, CHR ''}''] = [[CHR 0xFF]]
   \<and> map_of [([CHR 0xFF], Val (1::int))] [CHR 0xFF] = Some (Val 1)
   \<and> extractArgs [CHR ''{'', CHR 0xFF, CHR ''}''] (map_of [([CHR 0xFF], Val (1::int))])
       = (None, Some (MissingParameter [CHR 0xEF, CHR 0xBF, CHR 0xBD]))"
  by (simp add: extractArgs_def paramNames_def runes_def range_string.simps decodeRune_def
      RuneError_def encodeRune_def char_of_eq_iff placeholder_names.simps text_after_def
      text_before_def text_after_last_def)

text \<open>
  C3, amended. The names that \<^verbatim>\<open>extractArgs\<close> looks up are the names of the completed
  placeholders of the template, in their order from left to right, each one rewritten
  as the loop rewrites it: every byte that is not part of a valid UTF-8 sequence becomes
  the three bytes of U+FFFD. \<^verbatim>\<open>extractArgs\<close> returns an error if and only if the map
  lacks one of these names; the error is the missing-parameter error of the first of
  them that the map lacks, and it comes with the nil vector; with no name missing, the
  vector holds the map's value of every name, in the order of occurrence, and the error
  is nil. For a template that is valid UTF-8 the names looked up are the placeholder
  names themselves, so that \<^verbatim>\<open>extractArgs\<close> returns an error if and only if some
  completed placeholder name of the template is absent from the map, naming the first
  such name. For a template with well-formed placeholders the completed placeholder
  names are the names written between its braces, in their order.
\<close>

theorem missing_parameter:
  "(snd (extractArgs t p) \<noteq> None
      \<longleftrightarrow> (\<exists>name \<in> set (placeholder_names t). p (recode name) = None))
   \<and> extractArgs t p =
       (case find (\<lambda>name. p name = None) (map recode (placeholder_names t)) of
          Some name \<Rightarrow> (None, Some (MissingParameter name))
        | None \<Rightarrow> (Some (map (\<lambda>name. the (p name)) (map recode (placeholder_names t))), None))
   \<and> (ValidString t \<longrightarrow>
        (snd (extractArgs t p) \<noteq> None
           \<longleftrightarrow> (\<exists>name \<in> set (placeholder_names t). p name = None))
        \<and> extractArgs t p =
            (case find (\<lambda>name. p name = None) (placeholder_names t) of
               Some name \<Rightarrow> (None, Some (MissingParameter name))
             | None \<Rightarrow> (Some (map (\<lambda>name. the (p name)) (placeholder_names t)), None)))
   \<and> (well_formed lit segs \<longrightarrow> placeholder_names (template lit segs) = map fst segs)"
proof (intro conjI impI)
  have "snd (extractArgs t p) \<noteq> None \<longleftrightarrow> find (\<lambda>name. p name = None) (paramNames t) \<noteq> None"
    unfolding extractArgs_find by (simp split: option.splits)
  then show "snd (extractArgs t p) \<noteq> None
      \<longleftrightarrow> (\<exists>name \<in> set (placeholder_names t). p (recode name) = None)"
    by (simp add: find_None_iff2 paramNames_placeholder_names)
next
  show "extractArgs t p =
       (case find (\<lambda>name. p name = None) (map recode (placeholder_names t)) of
          Some name \<Rightarrow> (None, Some (MissingParameter name))
        | None \<Rightarrow> (Some (map (\<lambda>name. the (p name)) (map recode (placeholder_names t))), None))"
    unfolding paramNames_placeholder_names[symmetric] by (rule extractArgs_find)
next
  assume v: "ValidString t"
  have "snd (extractArgs t p) \<noteq> None \<longleftrightarrow> find (\<lambda>name. p name = None) (paramNames t) \<noteq> None"
    unfolding extractArgs_find by (simp split: option.splits)
  then show "snd (extractArgs t p) \<noteq> None
           \<longleftrightarrow> (\<exists>name \<in> set (placeholder_names t). p name = None)"
    by (simp add: find_None_iff2 paramNames_valid[OF v])
next
  assume v: "ValidString t"
  show "extractArgs t p =
            (case find (\<lambda>name. p name = None) (placeholder_names t) of
               Some name \<Rightarrow> (None, Some (MissingParameter name))
             | None \<Rightarrow> (Some (map (\<lambda>name. the (p name)) (placeholder_names t)), None))"
    unfolding paramNames_valid[OF v, symmetric] by (rule extractArgs_find)
next
  assume "well_formed lit segs"
  then show "placeholder_names (template lit segs) = map fst segs"
    by (rule placeholder_names_template)
qed

theorem missing_parameter_witness:
  "ValidString ''SELECT * FROM t WHERE id = {id}''
   \<and> well_formed ''SELECT * FROM t WHERE id = '' [(''id'', [])]
   \<and> placeholder_names ''SELECT * FROM t WHERE id = {id}'' = [''id'']
   \<and> extractArgs ''SELECT * FROM t WHERE id = {id}'' (Map.empty :: int params)
       = (None, Some (MissingParameter ''id''))"
  using missing_parameter
    [of "''SELECT * FROM t WHERE id = {id}''" "Map.empty :: int params"
      "''SELECT * FROM t WHERE id = ''" "[(''id'', [])]"]
  by (simp add: well_formed_def template_def ValidString_ascii_Cons ValidString_Nil
      recode_ascii_Cons recode_Nil)

text \<open>
  C4, as stated, fails for a template that is not valid UTF-8: the template of the one
  byte FF holds no \<open>{\<close>, and \<^verbatim>\<open>replaceNamedParams\<close> returns the three bytes EF BF BD,
  the encoding of U+FFFD, in its place.
\<close>

theorem invalid_byte_rewritten:
  "CHR ''{'' \<notin> set [CHR 0xFF]
   \<and> replaceNamedParams [CHR 0xFF] = [CHR 0xEF, CHR 0xBF, CHR 0xBD]"
  by (simp add: replaceNamedParams_def runes_def range_string.simps decodeRune_def
      RuneError_def encodeRune_def char_of_eq_iff)

text \<open>
  C4, amended. For every template with no \<open>{\<close> in it, \<^verbatim>\<open>replaceNamedParams\<close> returns the
  template with every byte that is not part of a valid UTF-8 sequence replaced by the
  three bytes of U+FFFD, and so the template unchanged when it is valid UTF-8; and
  \<^verbatim>\<open>extractArgs\<close> returns the empty vector, which is not the nil slice, and no error,
  whatever the parameter map.
\<close>

theorem no_placeholder:
  assumes "CHR ''{'' \<notin> set t"
  shows "replaceNamedParams t = recode t
       \<and> (ValidString t \<longrightarrow> replaceNamedParams t = t)
       \<and> extractArgs t p = (Some [], None)"
  using assms
  by (simp add: replaceNamedParams_def replace_literal extractArgs_def paramNames_def scan_literal
      recode_valid)

theorem no_placeholder_witness:
  "ValidString ''SELECT * FROM users''
   \<and> replaceNamedParams ''SELECT * FROM users'' = ''SELECT * FROM users''
   \<and> extractArgs ''SELECT * FROM users'' (map_of [(''id'', Val (123::int))]) = (Some [], None)"
  using no_placeholder[of "''SELECT * FROM users''" "map_of [(''id'', Val (123::int))]"]
  by (simp add: ValidString_ascii_Cons ValidString_Nil recode_ascii_Cons recode_Nil)

text \<open>
  C5. For every template in which a \<open>{\<close> has no \<open>}\<close> after it, as when the last \<open>{\<close> of
  the template is never closed, \<^verbatim>\<open>extractArgs\<close> collects the same names as for the text
  before that \<open>{\<close>, and so returns the same vector and the same error: the unterminated
  fragment adds no entry and no error, and the parameter map need not hold its name.
\<close>

theorem unterminated_absorbed:
  assumes "CHR ''}'' \<notin> set rest"
  shows "paramNames (pre @ CHR ''{'' # rest) = paramNames pre
       \<and> extractArgs (pre @ CHR ''{'' # rest) p = extractArgs pre p"
  using paramNames_open[OF assms] by (simp add: extractArgs_def)

theorem unterminated_absorbed_witness:
  "extractArgs ''SELECT * FROM t WHERE a = {a} AND b = {b'' (map_of [(''a'', Val (7::int))])
     = (Some [Val 7], None)"
  using unterminated_absorbed
    [of "''b''" "''SELECT * FROM t WHERE a = {a} AND b = ''" "map_of [(''a'', Val (7::int))]"]
  by (simp add: extractArgs_def paramNames_def ascii_steps)

text \<open>
  C10, as stated, fails: the template \<open>{a{b\<close> holds a \<open>{\<close> that no \<open>}\<close> follows, its
  translation \<open>$1$2\<close> holds two markers, and \<^verbatim>\<open>extractArgs\<close> returns no value at all, so
  the statement has two markers more than there are values, not one.
\<close>

theorem two_unclosed_braces_two_markers:
  "replaceNamedParams ''{a{b'' = ''$1$2''
   \<and> extractArgs ''{a{b'' (map_of [(''a'', Val (1::int)), (''b'', Val 2)]) = (Some [], None)"
  by (simp add: extractArgs_def paramNames_def replaceNamedParams_def Sprintf_marker_def
      Itoa.simps digit_def ascii_steps)

text \<open>
  C10, amended. For every template in which a \<open>{\<close> is followed by text \<open>rest\<close> with no
  \<open>}\<close> in it up to the end of the string: \<^verbatim>\<open>replaceNamedParams\<close> returns the translation
  of the text \<open>pre\<close> before that \<open>{\<close>, followed by one marker for that \<open>{\<close> and one for
  every further \<open>{\<close> of \<open>rest\<close>, numbered on from the number of \<open>{\<close> in \<open>pre\<close>, and no
  character of \<open>rest\<close>. When moreover \<open>pre\<close> is valid UTF-8 and a template with n
  well-formed placeholders, and the map holds their names, \<^verbatim>\<open>extractArgs\<close> returns n
  values, while the translated statement holds n markers for the placeholders and one
  more for each \<open>{\<close> that is left unclosed: exactly one more marker than values when
  \<open>rest\<close> holds no \<open>{\<close>.
\<close>

theorem unterminated_marker:
  assumes "CHR ''}'' \<notin> set rest"
  shows "replaceNamedParams (pre @ CHR ''{'' # rest)
           = replaceNamedParams pre
             @ concat (map Sprintf_marker
                 [Suc (count_list pre CHR ''{'')
                  ..<Suc (count_list pre CHR ''{'') + Suc (count_list rest CHR ''{'')])
       \<and> (CHR ''{'' \<notin> set rest \<longrightarrow>
            replaceNamedParams (pre @ CHR ''{'' # rest)
              = replaceNamedParams pre @ Sprintf_marker (Suc (count_list pre CHR ''{'')))
       \<and> (well_formed lit segs \<and> ValidString (template lit segs)
            \<and> (\<forall>(name, lit') \<in> set segs. p name \<noteq> None) \<longrightarrow>
            replaceNamedParams (template lit segs @ CHR ''{'' # rest)
              = lit @ markers_from 1 segs
                @ concat (map Sprintf_marker
                    [Suc (length segs)..<Suc (length segs) + Suc (count_list rest CHR ''{'')])
            \<and> extractArgs (template lit segs @ CHR ''{'' # rest) p
              = (Some (map (\<lambda>(name, lit'). the (p name)) segs), None))"
proof (intro conjI impI)
  show "replaceNamedParams (pre @ CHR ''{'' # rest)
           = replaceNamedParams pre
             @ concat (map Sprintf_marker
                 [Suc (count_list pre CHR ''{'')
                  ..<Suc (count_list pre CHR ''{'') + Suc (count_list rest CHR ''{'')])"
    by (rule replaceNamedParams_open[OF assms])
next
  assume "CHR ''{'' \<notin> set rest"
  then have "count_list rest CHR ''{'' = 0"
    by (simp add: count_list_0_iff)
  then show "replaceNamedParams (pre @ CHR ''{'' # rest)
              = replaceNamedParams pre @ Sprintf_marker (Suc (count_list pre CHR ''{''))"
    using replaceNamedParams_open[OF assms, of pre] by simp
next
  assume h: "well_formed lit segs \<and> ValidString (template lit segs)
            \<and> (\<forall>(name, lit') \<in> set segs. p name \<noteq> None)"
  then have wf: "well_formed lit segs" and v: "ValidString (template lit segs)"
    by simp_all
  show "replaceNamedParams (template lit segs @ CHR ''{'' # rest)
              = lit @ markers_from 1 segs
                @ concat (map Sprintf_marker
                    [Suc (length segs)..<Suc (length segs) + Suc (count_list rest CHR ''{'')])"
    using replaceNamedParams_open[OF assms, of "template lit segs"]
    by (simp only: replaceNamedParams_template[OF wf v] count_template[OF wf] append_assoc)
next
  assume h: "well_formed lit segs \<and> ValidString (template lit segs)
            \<and> (\<forall>(name, lit') \<in> set segs. p name \<noteq> None)"
  then have wf: "well_formed lit segs" and v: "ValidString (template lit segs)"
    and p: "\<forall>(name, lit') \<in> set segs. p name \<noteq> None"
    by simp_all
  have "paramNames (template lit segs @ CHR ''{'' # rest) = map fst segs"
    using paramNames_open[OF assms] paramNames_valid_template[OF wf v] by simp
  with p show "extractArgs (template lit segs @ CHR ''{'' # rest) p
              = (Some (map (\<lambda>(name, lit'). the (p name)) segs), None)"
    by (intro extractArgs_all_present) simp_all
qed

theorem unterminated_marker_witness:
  "ValidString ''WHERE a = {a} AND b = ''
   \<and> replaceNamedParams ''WHERE a = {a} AND b = {b'' = ''WHERE a = $1 AND b = $2''
   \<and> replaceNamedParams ''WHERE a = {a} AND b = {b OR c = {c'' = ''WHERE a = $1 AND b = $2$3''
   \<and> extractArgs ''WHERE a = {a} AND b = {b OR c = {c'' (map_of [(''a'', Val (7::int))])
       = (Some [Val 7], None)"
  using unterminated_marker
    [of "''b''" "''WHERE a = {a} AND b = ''" "''WHERE a = ''" "[(''a'', '' AND b = '')]"
      "map_of [(''a'', Val (7::int))]"]
    unterminated_marker
    [of "''b OR c = {c''" "''WHERE a = {a} AND b = ''" "''WHERE a = ''" "[(''a'', '' AND b = '')]"
      "map_of [(''a'', Val (7::int))]"]
  by (simp add: well_formed_def template_def replaceNamedParams_def Sprintf_marker_def
      Itoa.simps digit_def upt_rec ascii_steps ValidString_ascii_Cons ValidString_Nil)

section \<open>Properties of the adapter\<close>

subsection \<open>Slices filled by index\<close>

lemma fold_update_enumerate:
  "n + length xs \<le> length ys \<Longrightarrow>
   fold (\<lambda>(i, x) ys. ys[i := f i x]) (enumerate n xs) ys
     = take n ys @ map (\<lambda>(i, x). f i x) (enumerate n xs) @ drop (n + length xs) ys"
proof (induction xs arbitrary: n ys)
  case Nil
  then show ?case by simp
next
  case (Cons x xs)
  have "fold (\<lambda>(i, x) ys. ys[i := f i x]) (enumerate n (x # xs)) ys
        = fold (\<lambda>(i, x) ys. ys[i := f i x]) (enumerate (Suc n) xs) (ys[n := f n x])"
    by simp
  also have "\<dots> = take (Suc n) (ys[n := f n x]) @ map (\<lambda>(i, x). f i x) (enumerate (Suc n) xs)
                   @ drop (Suc n + length xs) (ys[n := f n x])"
    using Cons.prems by (intro Cons.IH) simp
  also have "take (Suc n) (ys[n := f n x]) = take n ys @ [f n x]"
    using Cons.prems by (simp add: take_Suc_conv_app_nth)
  also have "drop (Suc n + length xs) (ys[n := f n x]) = drop (n + length (x # xs)) ys"
    by simp
  finally show ?case by simp
qed

lemma fill_make:
  "length ys = length xs \<Longrightarrow> fill f xs ys = map (\<lambda>(i, x). f i x) (enumerate 0 xs)"
  unfolding fill_def using fold_update_enumerate[of 0 xs ys f] by simp

lemma map_enumerate_snd: "map (\<lambda>(i, x). g x) (enumerate n xs) = map g xs"
proof -
  have "map (\<lambda>(i, x). g x) (enumerate n xs) = map (g \<circ> snd) (enumerate n xs)"
    by (rule map_cong) auto
  also have "\<dots> = map g (map snd (enumerate n xs))"
    by (simp only: map_map)
  also have "\<dots> = map g xs"
    by (simp only: map_snd_enumerate)
  finally show ?thesis .
qed


lemma fill_columns:
  "fill (\<lambda>i prop. g prop) props (replicate (length props) v) = map g props"
  by (simp add: fill_make map_enumerate_snd)


lemma insertBulk_row_fold:
  "n + length props \<le> length ps \<Longrightarrow>
   fold (\<lambda>(j, prop) (placeholders, paramIndex, allValues).
           (placeholders[j := Sprintf_marker paramIndex], paramIndex + 1,
            allValues @ [index obj (ObjectField prop)]))
     (enumerate n props) (ps, k, av)
   = (take n ps @ map Sprintf_marker [k..<k + length props] @ drop (n + length props) ps,
      k + length props,
      av @ map (\<lambda>prop. index obj (ObjectField prop)) props)"
proof (induction props arbitrary: n ps k av)
  case Nil
  then show ?case by simp
next
  case (Cons p props)
  have len: "Suc n + length props \<le> length (ps[n := Sprintf_marker k])"
    using Cons.prems by simp
  have tk: "take (Suc n) (ps[n := Sprintf_marker k]) = take n ps @ [Sprintf_marker k]"
    using Cons.prems by (simp add: take_Suc_conv_app_nth)
  have "fold (\<lambda>(j, prop) (placeholders, paramIndex, allValues).
           (placeholders[j := Sprintf_marker paramIndex], paramIndex + 1,
            allValues @ [index obj (ObjectField prop)]))
     (enumerate n (p # props)) (ps, k, av)
     = fold (\<lambda>(j, prop) (placeholders, paramIndex, allValues).
           (placeholders[j := Sprintf_marker paramIndex], paramIndex + 1,
            allValues @ [index obj (ObjectField prop)]))
     (enumerate (Suc n) props) (ps[n := Sprintf_marker k], Suc k, av @ [index obj (ObjectField p)])"
    by simp
  also have "\<dots> = (take (Suc n) (ps[n := Sprintf_marker k])
                      @ map Sprintf_marker [Suc k..<Suc k + length props]
                      @ drop (Suc n + length props) (ps[n := Sprintf_marker k]),
                    Suc k + length props,
                    (av @ [index obj (ObjectField p)]) @ map (\<lambda>prop. index obj (ObjectField prop)) props)"
    by (rule Cons.IH[OF len])
  also have "\<dots> = (take n ps @ map Sprintf_marker [k..<k + length (p # props)]
                      @ drop (n + length (p # props)) ps,
                    k + length (p # props),
                    av @ map (\<lambda>prop. index obj (ObjectField prop)) (p # props))"
    unfolding length_Cons upt_Suc_head tk by simp
  finally show ?case .
qed

lemma insertBulk_row_eq:
  "insertBulk_row obj props (length props) k av
   = (map Sprintf_marker [k..<k + length props], k + length props,
      av @ map (\<lambda>prop. index obj (ObjectField prop)) props)"
  unfolding insertBulk_row_def
  using insertBulk_row_fold[of 0 props "replicate (length props) []" obj k av] by simp

lemma insertBulk_rows_eq:
  assumes "\<forall>objInterface \<in> set objs. the_map objInterface \<noteq> None"
    and "n + length objs \<le> length vr"
  shows "insertBulk_rows h props (length props) (enumerate n objs) (vr, av, k)
         = Inr (take n vr
                  @ map (\<lambda>i. value_tuple (k + i * length props) (length props)) [0..<length objs]
                  @ drop (n + length objs) vr,
                av @ concat (map (row_values h props) objs),
                k + length objs * length props)"
  using assms
proof (induction objs arbitrary: n vr av k)
  case Nil
  then show ?case by simp
next
  case (Cons x objs)
  from Cons.prems(1) obtain obj where x: "the_map x = Some obj"
    by auto
  let ?t = "value_tuple k (length props)"
  have maps: "\<forall>objInterface \<in> set objs. the_map objInterface \<noteq> None"
    using Cons.prems(1) by simp
  have len: "Suc n + length objs \<le> length (vr[n := ?t])"
    using Cons.prems(2) by simp
  have tk: "take (Suc n) (vr[n := ?t]) = take n vr @ [?t]"
    using Cons.prems(2) by (simp add: take_Suc_conv_app_nth)
  have up: "map (\<lambda>i. value_tuple (k + i * length props) (length props)) [0..<length (x # objs)]
            = ?t # map (\<lambda>i. value_tuple (k + length props + i * length props) (length props))
                  [0..<length objs]"
    unfolding length_Cons map_upt_Suc by (simp add: add.assoc)
  have "insertBulk_rows h props (length props) (enumerate n (x # objs)) (vr, av, k)
        = insertBulk_rows h props (length props) (enumerate (Suc n) objs)
            (vr[n := ?t], av @ row_values h props x, k + length props)"
    by (simp add: x insertBulk_row_eq row_values_def value_tuple_def)
  also have "\<dots> = Inr (take (Suc n) (vr[n := ?t])
                  @ map (\<lambda>i. value_tuple (k + length props + i * length props) (length props))
                      [0..<length objs]
                  @ drop (Suc n + length objs) (vr[n := ?t]),
                (av @ row_values h props x) @ concat (map (row_values h props) objs),
                k + length props + length objs * length props)"
    by (rule Cons.IH[OF maps len])
  also have "\<dots> = Inr (take n vr
                  @ map (\<lambda>i. value_tuple (k + i * length props) (length props)) [0..<length (x # objs)]
                  @ drop (n + length (x # objs)) vr,
                av @ concat (map (row_values h props) (x # objs)),
                k + length (x # objs) * length props)"
    unfolding up tk by simp
  finally show ?case .
qed

lemma insertBulk_eq:
  assumes "\<forall>objInterface \<in> set objects. the_map objInterface \<noteq> None"
  shows "insertBulk d op objects h =
     (let d' = d\<lparr>calls := calls d @ [ExecCall (bulk_statement op (length objects))
                                         (concat (map (row_values h (Properties op)) objects))]\<rparr>
      in (case on_exec d (calls d') of Inl e \<Rightarrow> Some (BulkInsertFailed e) | Inr result \<Rightarrow> None,
          d'))"
proof -
  have rows: "insertBulk_rows h (Properties op) (length (Properties op)) (enumerate 0 objects)
          (replicate (length objects) [], [], Suc 0)
        = Inr (map (\<lambda>i. value_tuple (Suc (i * length (Properties op))) (length (Properties op)))
                 [0..<length objects],
               concat (map (row_values h (Properties op)) objects),
               Suc (length objects * length (Properties op)))"
    using insertBulk_rows_eq[OF assms, of 0 "replicate (length objects) []" h "Properties op" "[]" "Suc 0"]
    by simp
  show ?thesis
    unfolding insertBulk_def
    by (simp add: fill_columns rows bulk_statement_def ExecContext_def Let_def
        split: sum.splits)
qed










lemma extractArgs_error:
  "extractArgs t p = (args, Some err) \<Longrightarrow> \<exists>name. err = MissingParameter name"
  by (auto simp: extractArgs_find split: option.splits)

lemma Update_loop_append:
  "Update_loop q h (xs @ ys) d =
     (case Update_loop q h xs d of
        (None, d') \<Rightarrow> Update_loop q h ys d'
      | (Some e, d') \<Rightarrow> (Some e, d'))"
  by (induction xs arbitrary: d)
     (auto simp: Let_def split: option.splits sum.splits prod.splits)

lemma Update_loop_Cons_cases:
  "(\<exists>e d1. Update_loop q h (x # xs) d = (Some e, d1) \<and> e \<noteq> ErrNotFound
          \<and> (\<forall>m. the_map x = Some m \<longrightarrow> \<not> zero_rows d q (load h m)))
   \<or> (\<exists>m. the_map x = Some m \<and> zero_rows d q (load h m)
          \<and> fst (Update_loop q h (x # xs) d) = Some ErrNotFound)
   \<or> (\<exists>m d1. the_map x = Some m \<and> \<not> zero_rows d q (load h m)
          \<and> Update_loop q h [x] d = (None, d1)
          \<and> Update_loop q h (x # xs) d = Update_loop q h xs d1)"
  by (auto simp: Let_def zero_rows_def ExecContext_def
      split: option.splits sum.splits prod.splits dest: extractArgs_error)

lemma Update_loop_not_found:
  "fst (Update_loop q h objs d) = Some ErrNotFound \<longleftrightarrow>
     (\<exists>pre obj m post d'. objs = pre @ obj # post \<and> Update_loop q h pre d = (None, d')
        \<and> the_map obj = Some m \<and> zero_rows d' q (load h m))"
  (is "?lhs objs d \<longleftrightarrow> ?rhs objs d")
proof
  assume "?rhs objs d"
  then obtain pre obj m post d' where objs: "objs = pre @ obj # post"
    and pre: "Update_loop q h pre d = (None, d')"
    and m: "the_map obj = Some m" and z: "zero_rows d' q (load h m)"
    by blast
  have "Update_loop q h objs d = Update_loop q h (obj # post) d'"
    by (simp add: objs Update_loop_append pre)
  moreover have "fst (Update_loop q h (obj # post) d') = Some ErrNotFound"
    using Update_loop_Cons_cases[of q h obj post d'] m z by auto
  ultimately show "?lhs objs d" by simp
next
  show "?lhs objs d \<Longrightarrow> ?rhs objs d"
  proof (induction objs arbitrary: d)
    case Nil
    then show ?case by simp
  next
    case (Cons x xs)
    from Update_loop_Cons_cases[of q h x xs d] Cons.prems
    consider (here) m where "the_map x = Some m" "zero_rows d q (load h m)"
      | (later) m d1 where "the_map x = Some m" "Update_loop q h [x] d = (None, d1)"
          "Update_loop q h (x # xs) d = Update_loop q h xs d1"
      by auto
    then show ?case
    proof cases
      case here
      have "x # xs = [] @ x # xs \<and> Update_loop q h [] d = (None, d)
            \<and> the_map x = Some m \<and> zero_rows d q (load h m)"
        using here by simp
      then show ?thesis by blast
    next
      case later
      then have "fst (Update_loop q h xs d1) = Some ErrNotFound"
        using Cons.prems by simp
      from Cons.IH[OF this] obtain pre obj m' post d' where xs: "xs = pre @ obj # post"
        and pre: "Update_loop q h pre d1 = (None, d')"
        and m': "the_map obj = Some m'" and z: "zero_rows d' q (load h m')"
        by blast
      have "Update_loop q h (x # pre) d = (None, d')"
        using Update_loop_append[of q h "[x]" pre d] later(2) pre by simp
      then have "x # xs = (x # pre) @ obj # post \<and> Update_loop q h (x # pre) d = (None, d')
            \<and> the_map obj = Some m' \<and> zero_rows d' q (load h m')"
        using xs m' z by simp
      then show ?thesis by blast
    qed
  qed
qed

lemma Delete_loop_append:
  "Delete_loop q h (xs @ ys) d =
     (case Delete_loop q h xs d of
        (None, d') \<Rightarrow> Delete_loop q h ys d'
      | (Some e, d') \<Rightarrow> (Some e, d'))"
  by (induction xs arbitrary: d)
     (auto simp: Let_def split: option.splits sum.splits prod.splits)

lemma Delete_loop_Cons_cases:
  "(\<exists>e d1. Delete_loop q h (x # xs) d = (Some e, d1) \<and> e \<noteq> ErrNotFound
          \<and> \<not> zero_rows d q (Delete_params h x))
   \<or> (zero_rows d q (Delete_params h x)
          \<and> fst (Delete_loop q h (x # xs) d) = Some ErrNotFound)
   \<or> (\<exists>d1. \<not> zero_rows d q (Delete_params h x)
          \<and> Delete_loop q h [x] d = (None, d1)
          \<and> Delete_loop q h (x # xs) d = Delete_loop q h xs d1)"
  by (auto simp: Let_def zero_rows_def ExecContext_def
      split: option.splits sum.splits prod.splits dest: extractArgs_error)

lemma Delete_loop_not_found:
  "fst (Delete_loop q h ids d) = Some ErrNotFound \<longleftrightarrow>
     (\<exists>pre x post d'. ids = pre @ x # post \<and> Delete_loop q h pre d = (None, d')
        \<and> zero_rows d' q (Delete_params h x))"
  (is "?lhs ids d \<longleftrightarrow> ?rhs ids d")
proof
  assume "?rhs ids d"
  then obtain pre x post d' where ids: "ids = pre @ x # post"
    and pre: "Delete_loop q h pre d = (None, d')"
    and z: "zero_rows d' q (Delete_params h x)"
    by blast
  have "Delete_loop q h ids d = Delete_loop q h (x # post) d'"
    by (simp add: ids Delete_loop_append pre)
  moreover have "fst (Delete_loop q h (x # post) d') = Some ErrNotFound"
    using Delete_loop_Cons_cases[of q h x post d'] z by auto
  ultimately show "?lhs ids d" by simp
next
  show "?lhs ids d \<Longrightarrow> ?rhs ids d"
  proof (induction ids arbitrary: d)
    case Nil
    then show ?case by simp
  next
    case (Cons x xs)
    from Delete_loop_Cons_cases[of q h x xs d] Cons.prems
    consider (here) "zero_rows d q (Delete_params h x)"
      | (later) d1 where "Delete_loop q h [x] d = (None, d1)"
          "Delete_loop q h (x # xs) d = Delete_loop q h xs d1"
      by auto
    then show ?case
    proof cases
      case here
      have "x # xs = [] @ x # xs \<and> Delete_loop q h [] d = (None, d)
            \<and> zero_rows d q (Delete_params h x)"
        using here by simp
      then show ?thesis by blast
    next
      case later
      then have "fst (Delete_loop q h xs d1) = Some ErrNotFound"
        using Cons.prems by simp
      from Cons.IH[OF this] obtain pre y post d' where xs: "xs = pre @ y # post"
        and pre: "Delete_loop q h pre d1 = (None, d')"
        and z: "zero_rows d' q (Delete_params h y)"
        by blast
      have "Delete_loop q h (x # pre) d = (None, d')"
        using Delete_loop_append[of q h "[x]" pre d] later(1) pre by simp
      then have "x # xs = (x # pre) @ y # post \<and> Delete_loop q h (x # pre) d = (None, d')
            \<and> zero_rows d' q (Delete_params h y)"
        using xs z by simp
      then show ?thesis by blast
    qed
  qed
qed

lemma Fetch_rows_result:
  "Fetch_rows columns rows results = Inr res \<Longrightarrow>
   (length (elems res) = 0 \<longleftrightarrow> rows = [] \<and> elems results = [])"
  by (induction rows arbitrary: results) (auto split: sum.splits)

lemma Fetch_rows_error:
  "Fetch_rows columns rows results = Inl err \<Longrightarrow> err \<noteq> ErrNotFound"
  by (induction rows arbitrary: results) (auto split: sum.splits)

lemma Fetch_not_found:
  "snd (fst (Fetch a op params)) = Some ErrNotFound \<longleftrightarrow>
     (\<exists>d args rows columns.
        db a = Some d \<and> extractArgs (Statement op) params = (args, None)
        \<and> on_query d (calls d @ [QueryCall (replaceNamedParams (Statement op)) (elems args)])
            = Inr rows
        \<and> Columns rows = Inr columns \<and> Next rows = [] \<and> Err rows = None \<and> \<not> Multi op)"
  unfolding Fetch_def
  by (auto simp: Let_def QueryContext_def
      split: option.splits sum.splits prod.splits
      dest: extractArgs_error Fetch_rows_error Fetch_rows_result)



lemma upt_ranges_concat:
  "concat (map (\<lambda>i. [i * n + 1..<i * n + 1 + n]) [0..<m]) = [1..<m * n + 1]"
proof (induction m)
  case 0
  then show ?case by simp
next
  case (Suc m)
  have "concat (map (\<lambda>i. [i * n + 1..<i * n + 1 + n]) [0..<Suc m])
        = concat (map (\<lambda>i. [i * n + 1..<i * n + 1 + n]) [0..<m]) @ [m * n + 1..<m * n + 1 + n]"
    by simp
  also have "\<dots> = [1..<m * n + 1] @ [m * n + 1..<m * n + 1 + n]"
    by (simp only: Suc)
  also have "\<dots> = [1..<m * n + 1 + n]"
    using upt_add_eq_append[of 1 "m * n + 1" n] by simp
  also have "m * n + 1 + n = Suc m * n + 1"
    by simp
  finally show ?case .
qed

lemma nth_concat_uniform:
  "\<forall>xs \<in> set xss. length xs = n \<Longrightarrow> i < length xss \<Longrightarrow> j < n \<Longrightarrow>
   concat xss ! (i * n + j) = xss ! i ! j"
proof (induction xss arbitrary: i)
  case Nil
  then show ?case by simp
next
  case (Cons xs xss)
  have len: "length xs = n" using Cons.prems(1) by simp
  show ?case
  proof (cases i)
    case 0
    then show ?thesis using len Cons.prems(3) by (simp add: nth_append)
  next
    case (Suc k)
    have "concat (xs # xss) ! (Suc k * n + j) = (xs @ concat xss) ! (length xs + (k * n + j))"
      by (simp add: len add.assoc)
    also have "\<dots> = concat xss ! (k * n + j)"
      by (rule nth_append_length_plus)
    also have "\<dots> = xss ! k ! j"
      using Cons.prems Suc by (intro Cons.IH) simp_all
    finally show ?thesis by (simp add: Suc)
  qed
qed

lemma length_row_values:
  "the_map objInterface \<noteq> None \<Longrightarrow> length (row_values h props objInterface) = length props"
  by (auto simp: row_values_def)

lemma length_concat_row_values:
  "\<forall>objInterface \<in> set objects. the_map objInterface \<noteq> None \<Longrightarrow>
   length (concat (map (row_values h props) objects)) = length objects * length props"
  by (induction objects) (simp_all add: length_row_values)

lemma db_update_eq: "a\<lparr>db := x\<rparr> = a\<lparr>db := y\<rparr> \<longleftrightarrow> x = y"
proof
  assume e: "a\<lparr>db := x\<rparr> = a\<lparr>db := y\<rparr>"
  have "x = db (a\<lparr>db := x\<rparr>)" by simp
  also have "\<dots> = db (a\<lparr>db := y\<rparr>)" by (simp only: e)
  also have "\<dots> = y" by simp
  finally show "x = y" .
next
  assume "x = y"
  then show "a\<lparr>db := x\<rparr> = a\<lparr>db := y\<rparr>" by simp
qed

subsection \<open>The claims\<close>

text \<open>
  C6. For every non-empty batch of row objects (maps) and an operation with no
  generated columns, \<^verbatim>\<open>Insert\<close> on a connected adapter issues exactly one statement, by
  one execution call: \<open>INSERT INTO table (cols) VALUES (row 1), (row 2), ...\<close> with the
  columns in mapping order and, for row \<open>i\<close> (counted from 0) of \<open>n\<close> columns, the
  placeholders \<open>$(i * n + 1)\<close> to \<open>$(i * n + n)\<close>. Taken over the whole batch these numbers
  are 1, 2, ... up to the number of rows times \<open>n\<close>, never restarting. The argument vector
  is the rows' values in mapping order, row after row, as many as there are
  placeholders: the argument for the placeholder \<open>$(i * n + j + 1)\<close> is the value that
  row \<open>i\<close> has at the object field of column mapping \<open>j\<close>. The error returned is the
  wrapped driver error, or nil.
\<close>

theorem bulk_insert_statement:
  assumes "db a = Some d" and "objects \<noteq> []" and "Generated op = []"
    and "\<forall>objInterface \<in> set objects. the_map objInterface \<noteq> None"
  shows "Insert a op objects h =
           (let d' = d\<lparr>calls := calls d @
                        [ExecCall (bulk_statement op (length objects))
                                  (concat (map (row_values h (Properties op)) objects))]\<rparr>
            in (case on_exec d (calls d') of
                  Inl e \<Rightarrow> Some (BulkInsertFailed e)
                | Inr result \<Rightarrow> None,
                h, a\<lparr>db := Some d'\<rparr>))
       \<and> concat (map (\<lambda>i. [i * length (Properties op) + 1
                              ..<i * length (Properties op) + 1 + length (Properties op)])
                    [0..<length objects])
           = [1..<length objects * length (Properties op) + 1]
       \<and> length (concat (map (row_values h (Properties op)) objects))
           = length objects * length (Properties op)
       \<and> (\<forall>i j. i < length objects \<and> j < length (Properties op) \<longrightarrow>
             concat (map (row_values h (Properties op)) objects) ! (i * length (Properties op) + j)
               = index (load h (the (the_map (objects ! i)))) (ObjectField (Properties op ! j)))"
proof -
  have "Insert a op objects h =
          (fst (insertBulk d op objects h), h, a\<lparr>db := Some (snd (insertBulk d op objects h))\<rparr>)"
    using assms(1-3) by (simp add: Insert_def split: prod.splits)
  moreover have "concat (map (row_values h (Properties op)) objects) ! (i * length (Properties op) + j)
               = index (load h (the (the_map (objects ! i)))) (ObjectField (Properties op ! j))"
    if "i < length objects" and "j < length (Properties op)" for i j
  proof -
    have "\<forall>xs \<in> set (map (row_values h (Properties op)) objects). length xs = length (Properties op)"
      using assms(4) by (auto simp: length_row_values)
    then have "concat (map (row_values h (Properties op)) objects) ! (i * length (Properties op) + j)
               = map (row_values h (Properties op)) objects ! i ! j"
      using that by (intro nth_concat_uniform) simp_all
    moreover have "the_map (objects ! i) \<noteq> None"
      using assms(4) that(1) by simp
    ultimately show ?thesis
      using that by (auto simp: row_values_def)
  qed
  ultimately show ?thesis
    using length_concat_row_values[OF assms(4)] upt_ranges_concat
    by (simp add: insertBulk_eq[OF assms(4)] Let_def)
qed

theorem bulk_insert_statement_witness:
  "Insert \<lparr>db = Some example_db\<rparr> example_op [Map (Ref 0), Map (Ref 1)] example_heap
     = (None, example_heap,
        \<lparr>db = Some (example_db\<lparr>calls :=
           [ExecCall ''INSERT INTO users (name, email) VALUES ($1, $2), ($3, $4)''
              [Val ''Alice'', Val ''alice@example.com'', Val ''Bob'', Val ''bob@example.com'']]\<rparr>)\<rparr>)"
  using bulk_insert_statement[of "\<lparr>db = Some example_db\<rparr>" example_db "[Map (Ref 0), Map (Ref 1)]"
      example_op example_heap]
  by (simp add: example_op_def example_db_def example_heap_def bulk_statement_def value_tuple_def
      row_values_def index_def Sprintf_marker_def Itoa.simps digit_def Let_def upt_rec)



text \<open>
  C8, as stated, fails: on an adapter that is not connected, \<^verbatim>\<open>Insert\<close> with an empty
  batch returns the not-connected error, since the check of the connection comes
  before the check of the batch.
\<close>

theorem empty_batch_not_connected:
  "fst (Insert \<lparr>db = None\<rparr> example_op [] example_heap) = Some NotConnected"
  by (simp add: Insert_def)

text \<open>
  C8, amended. \<^verbatim>\<open>Insert\<close> called with an empty batch issues no statement and changes no
  row object, whatever the column and generated mappings of the operation: the adapter,
  with the calls its connection has recorded, and the heap are returned as they were.
  It returns no error when the adapter is connected, and the not-connected error when
  it is not.
\<close>

theorem empty_batch:
  "Insert a op [] h = (case db a of None \<Rightarrow> Some NotConnected | Some d \<Rightarrow> None, h, a)"
  by (simp add: Insert_def split: option.splits)

theorem empty_batch_witness:
  "Insert \<lparr>db = Some example_db\<rparr> example_returning_op [] example_heap
     = (None, example_heap, \<lparr>db = Some example_db\<rparr>)"
  using empty_batch[of "\<lparr>db = Some example_db\<rparr>" example_returning_op example_heap]
  by simp

text \<open>
  C9. \<^verbatim>\<open>Fetch\<close> returns \<^verbatim>\<open>ErrNotFound\<close> exactly when the adapter is connected, every
  placeholder has its parameter, the query succeeds and its result set, read without
  error, has no row, and the \<^verbatim>\<open>Multi\<close> flag of the operation is false. \<^verbatim>\<open>Update\<close> returns
  \<^verbatim>\<open>ErrNotFound\<close> exactly when the batch holds an object such that the objects before it
  were all updated with no error and the statement executed for it reports zero rows
  affected; \<^verbatim>\<open>Delete\<close> likewise for its identifiers. Neither of the two consults the
  \<^verbatim>\<open>Multi\<close> flag.
\<close>

theorem not_found_signal:
  "(snd (fst (Fetch a op params)) = Some ErrNotFound \<longleftrightarrow>
      (\<exists>d args rows columns.
         db a = Some d \<and> extractArgs (Statement op) params = (args, None)
         \<and> on_query d (calls d @ [QueryCall (replaceNamedParams (Statement op)) (elems args)])
             = Inr rows
         \<and> Columns rows = Inr columns \<and> Next rows = [] \<and> Err rows = None \<and> \<not> Multi op))
   \<and> (fst (Update a op objects h) = Some ErrNotFound \<longleftrightarrow>
      (\<exists>pre obj m post d'.
         objects = pre @ obj # post \<and> Update a op pre h = (None, a\<lparr>db := Some d'\<rparr>)
         \<and> the_map obj = Some m \<and> zero_rows d' (Statement op) (load h m)))
   \<and> (fst (Delete a op identifiers h) = Some ErrNotFound \<longleftrightarrow>
      (\<exists>pre x post d'.
         identifiers = pre @ x # post \<and> Delete a op pre h = (None, a\<lparr>db := Some d'\<rparr>)
         \<and> zero_rows d' (Statement op) (Delete_params h x)))"
proof (intro conjI)
  show "snd (fst (Fetch a op params)) = Some ErrNotFound \<longleftrightarrow>
      (\<exists>d args rows columns.
         db a = Some d \<and> extractArgs (Statement op) params = (args, None)
         \<and> on_query d (calls d @ [QueryCall (replaceNamedParams (Statement op)) (elems args)])
             = Inr rows
         \<and> Columns rows = Inr columns \<and> Next rows = [] \<and> Err rows = None \<and> \<not> Multi op)"
    by (rule Fetch_not_found)
next
  have up: "Update a op xs h = (None, a\<lparr>db := Some d'\<rparr>)
            \<longleftrightarrow> (\<exists>d. db a = Some d \<and> Update_loop (Statement op) h xs d = (None, d'))" for xs d'
    by (cases "db a") (auto simp: Update_def db_update_eq split: prod.splits)
  show "fst (Update a op objects h) = Some ErrNotFound \<longleftrightarrow>
      (\<exists>pre obj m post d'.
         objects = pre @ obj # post \<and> Update a op pre h = (None, a\<lparr>db := Some d'\<rparr>)
         \<and> the_map obj = Some m \<and> zero_rows d' (Statement op) (load h m))"
  proof (cases "db a")
    case None
    then show ?thesis by (simp add: Update_def)
  next
    case (Some d)
    have "fst (Update a op objects h) = fst (Update_loop (Statement op) h objects d)"
      by (simp add: Update_def Some split: prod.splits)
    then show ?thesis
      unfolding up by (simp add: Some Update_loop_not_found)
  qed
next
  have del: "Delete a op xs h = (None, a\<lparr>db := Some d'\<rparr>)
            \<longleftrightarrow> (\<exists>d. db a = Some d \<and> Delete_loop (Statement op) h xs d = (None, d'))" for xs d'
    by (cases "db a") (auto simp: Delete_def db_update_eq split: prod.splits)
  show "fst (Delete a op identifiers h) = Some ErrNotFound \<longleftrightarrow>
      (\<exists>pre x post d'.
         identifiers = pre @ x # post \<and> Delete a op pre h = (None, a\<lparr>db := Some d'\<rparr>)
         \<and> zero_rows d' (Statement op) (Delete_params h x))"
  proof (cases "db a")
    case None
    then show ?thesis by (simp add: Delete_def)
  next
    case (Some d)
    have "fst (Delete a op identifiers h) = fst (Delete_loop (Statement op) h identifiers d)"
      by (simp add: Delete_def Some split: prod.splits)
    then show ?thesis
      unfolding del by (simp add: Some Delete_loop_not_found)
  qed
qed

theorem not_found_signal_witness:
  "snd (fst (Fetch \<lparr>db = Some example_db\<rparr>
               (example_op\<lparr>Statement := ''SELECT id FROM users WHERE id = {id}''\<rparr>)
               (map_of [(''id'', Val ''7'')]))) = Some ErrNotFound
   \<and> fst (Update \<lparr>db = Some example_db\<rparr>
            (example_op\<lparr>Statement := ''UPDATE users SET name = {Name} WHERE email = {Email}''\<rparr>)
            [Map (Ref 0)] example_heap) = Some ErrNotFound
   \<and> fst (Delete \<lparr>db = Some example_db\<rparr>
            (example_op\<lparr>Statement := ''DELETE FROM users WHERE id = {id}''\<rparr>)
            [Other (Val ''7'')] example_heap) = Some ErrNotFound"
  using not_found_signal[of "\<lparr>db = Some example_db\<rparr>"
        "example_op\<lparr>Statement := ''SELECT id FROM users WHERE id = {id}''\<rparr>"
        "map_of [(''id'', Val ''7'')]" "[]" example_heap "[]"]
    not_found_signal[of "\<lparr>db = Some example_db\<rparr>"
        "example_op\<lparr>Statement := ''UPDATE users SET name = {Name} WHERE email = {Email}''\<rparr>"
        "map_of [(''id'', Val ''7'')]" "[Map (Ref 0)]" example_heap "[]"]
    not_found_signal[of "\<lparr>db = Some example_db\<rparr>"
        "example_op\<lparr>Statement := ''DELETE FROM users WHERE id = {id}''\<rparr>"
        "map_of [(''id'', Val ''7'')]" "[]" example_heap "[Other (Val ''7'')]"]
  by (simp add: example_op_def example_db_def example_heap_def Fetch_def Update_def Delete_def
      QueryContext_def ExecContext_def extractArgs_def paramNames_def Let_def ascii_steps)

end
